theory Spec2Isabelle
  imports Main "HOL-Library.Word" "HOL-Library.Sublist" "HOL-Library.Char_ord"
begin

unbundle bit_operations_syntax

section \<open>Byte strings and the Go library functions the codec calls\<close>

text \<open>
  A Go \<^verbatim>\<open>string\<close> or \<^verbatim>\<open>[]byte\<close> is a sequence of bytes: \<^typ>\<open>string\<close>, a list of 8-bit
  \<^typ>\<open>char\<close>. The codec of \<^verbatim>\<open>lib.go\<close> calls \<^verbatim>\<open>bytes.TrimSpace\<close>, \<^verbatim>\<open>strings.Fields\<close>,
  \<^verbatim>\<open>bytes.Split\<close>, \<^verbatim>\<open>bytes.SplitN\<close>, \<^verbatim>\<open>bytes.HasPrefix\<close>, \<^verbatim>\<open>bytes.TrimPrefix\<close>,
  \<^verbatim>\<open>strconv.ParseUint\<close>, \<^verbatim>\<open>strconv.Atoi\<close>, \<^verbatim>\<open>strconv.ParseFloat\<close> and the verbs
  \<^verbatim>\<open>%s\<close>, \<^verbatim>\<open>%d\<close>, \<^verbatim>\<open>%02X\<close>, \<^verbatim>\<open>%.6f\<close> of \<^verbatim>\<open>fmt\<close>. Each is modelled here from its
  behaviour in the Go standard library (64-bit platform), except the two floating-point
  functions, which the codec's model takes as parameters.
\<close>

subsection \<open>White space\<close>

text \<open>
  \<^verbatim>\<open>unicode.IsSpace\<close> holds for the runes U+0009..U+000D, U+0020, U+0085, U+00A0, U+1680,
  U+2000..U+200A, U+2028, U+2029, U+202F, U+205F and U+3000. The list below gives their
  UTF-8 encodings. A byte sequence that is not a valid encoding decodes to U+FFFD of
  width 1, which is not white space, and no encoding below starts with a continuation
  byte: decoding rune by rune from the front and matching these encodings byte-wise give
  the same white space; from the back (\<^verbatim>\<open>utf8.DecodeLastRune\<close>) likewise.
\<close>

definition spaceRunes :: "string list" where
  "spaceRunes =
    [[CHR 0x09], [CHR 0x0A], [CHR 0x0B], [CHR 0x0C], [CHR 0x0D], [CHR 0x20],
     [CHR 0xC2, CHR 0x85], [CHR 0xC2, CHR 0xA0],
     [CHR 0xE1, CHR 0x9A, CHR 0x80],
     [CHR 0xE2, CHR 0x80, CHR 0x80], [CHR 0xE2, CHR 0x80, CHR 0x81],
     [CHR 0xE2, CHR 0x80, CHR 0x82], [CHR 0xE2, CHR 0x80, CHR 0x83],
     [CHR 0xE2, CHR 0x80, CHR 0x84], [CHR 0xE2, CHR 0x80, CHR 0x85],
     [CHR 0xE2, CHR 0x80, CHR 0x86], [CHR 0xE2, CHR 0x80, CHR 0x87],
     [CHR 0xE2, CHR 0x80, CHR 0x88], [CHR 0xE2, CHR 0x80, CHR 0x89],
     [CHR 0xE2, CHR 0x80, CHR 0x8A],
     [CHR 0xE2, CHR 0x80, CHR 0xA8], [CHR 0xE2, CHR 0x80, CHR 0xA9],
     [CHR 0xE2, CHR 0x80, CHR 0xAF],
     [CHR 0xE2, CHR 0x81, CHR 0x9F],
     [CHR 0xE3, CHR 0x80, CHR 0x80]]"

definition leadSpace :: "string \<Rightarrow> nat" where
  \<comment> \<open>width in bytes of the white-space rune the string starts with; 0 when it starts with none\<close>
  "leadSpace s = (case find (\<lambda>e. prefix e s) spaceRunes of None \<Rightarrow> 0 | Some e \<Rightarrow> length e)"

definition trailSpace :: "string \<Rightarrow> nat" where
  \<comment> \<open>width in bytes of the white-space rune the string ends with; 0 when it ends with none\<close>
  "trailSpace s = (case find (\<lambda>e. suffix e s) spaceRunes of None \<Rightarrow> 0 | Some e \<Rightarrow> length e)"

function trimLeft :: "string \<Rightarrow> string" where
  "trimLeft s = (if leadSpace s = 0 \<or> s = [] then s else trimLeft (drop (leadSpace s) s))"
  by pat_completeness auto
termination
  by (relation "measure length") auto

function trimRight :: "string \<Rightarrow> string" where
  "trimRight s =
     (if trailSpace s = 0 \<or> s = [] then s else trimRight (take (length s - trailSpace s) s))"
  by pat_completeness auto
termination
  by (relation "measure length") auto

declare trimLeft.simps [simp del]
declare trimRight.simps [simp del]

definition TrimSpace :: "string \<Rightarrow> string" where
  \<comment> \<open>\<^verbatim>\<open>bytes.TrimSpace\<close>: all leading and trailing white space removed\<close>
  "TrimSpace s = trimRight (trimLeft s)"

text \<open>
  \<^verbatim>\<open>strings.Fields\<close> splits around each run of white space and returns the non-empty
  pieces. \<open>cur\<close> is the field being read (the span \<^verbatim>\<open>start..end\<close> of \<^verbatim>\<open>FieldsFunc\<close>).
\<close>

function fieldsFrom :: "string \<Rightarrow> string \<Rightarrow> string list" where
  "fieldsFrom cur s =
     (if s = [] then (if cur = [] then [] else [cur])
      else if 0 < leadSpace s
        then (if cur = [] then [] else [cur]) @ fieldsFrom [] (drop (leadSpace s) s)
        else fieldsFrom (cur @ [hd s]) (tl s))"
  by pat_completeness auto
termination
  by (relation "measure (\<lambda>(cur, s). length s)") auto

declare fieldsFrom.simps [simp del]

definition Fields :: "string \<Rightarrow> string list" where
  "Fields s = fieldsFrom [] s"

subsection \<open>Splitting and prefixes\<close>

fun SplitNewline :: "string \<Rightarrow> string list" where
  \<comment> \<open>\<^verbatim>\<open>bytes.Split(s, []byte("\n"))\<close>: one more piece than there are newlines\<close>
  "SplitNewline [] = [[]]"
| "SplitNewline (c # cs) =
     (if c = CHR 0x0A then [] # SplitNewline cs
      else (case SplitNewline cs of [] \<Rightarrow> [[c]] | l # ls \<Rightarrow> (c # l) # ls))"

definition HasPrefix :: "string \<Rightarrow> string \<Rightarrow> bool" where
  "HasPrefix s p = prefix p s"

definition TrimPrefix :: "string \<Rightarrow> string \<Rightarrow> string" where
  "TrimPrefix s p = (if HasPrefix s p then drop (length p) s else s)"

definition SplitColon2 :: "string \<Rightarrow> string list" where
  \<comment> \<open>\<^verbatim>\<open>bytes.SplitN(line, []byte(":"), 2)\<close>: cut at the first colon, if there is one\<close>
  "SplitColon2 s =
     (if CHR '':'' \<in> set s
      then [takeWhile (\<lambda>c. c \<noteq> CHR '':'') s, drop 1 (dropWhile (\<lambda>c. c \<noteq> CHR '':'') s)]
      else [s])"

subsection \<open>Numeric conversions of \<^verbatim>\<open>strconv\<close>\<close>

datatype num_err = ErrSyntax | ErrRange

datatype conv_error =
    NumError string string num_err  \<comment> \<open>\<^verbatim>\<open>*strconv.NumError{Func, Num, Err}\<close>\<close>
  | ExpectedBytes nat               \<comment> \<open>\<^verbatim>\<open>"expected 4 bytes, got %d"\<close>\<close>

definition lower :: "char \<Rightarrow> nat" where
  \<comment> \<open>\<^verbatim>\<open>c | ('x' - 'X')\<close>: bit 5 of the byte set\<close>
  "lower c = unat ((of_char c :: 8 word) OR 0x20)"

definition digitVal :: "char \<Rightarrow> nat option" where
  \<comment> \<open>the digit switch of \<^verbatim>\<open>ParseUint\<close>, without the underscore case (the base is never 0)\<close>
  "digitVal c =
     (if CHR ''0'' \<le> c \<and> c \<le> CHR ''9'' then Some (of_char c - 48)
      else if 97 \<le> lower c \<and> lower c \<le> 122 then Some (lower c - 97 + 10)
      else None)"

fun parseUintLoop :: "nat \<Rightarrow> nat \<Rightarrow> nat \<Rightarrow> nat \<Rightarrow> string \<Rightarrow> num_err + nat" where
  \<comment> \<open>\<open>n\<close> is a \<^verbatim>\<open>uint64\<close>, here a \<^typ>\<open>nat\<close> below \<open>2 ^ 64\<close>: the source's overflow test
      \<^verbatim>\<open>n1 < n\<close> on the wrapped sum is \<open>2 ^ 64 \<le> n * base + d\<close> on the exact one, with
      \<open>2 ^ 64 = 18446744073709551616\<close>\<close>
  "parseUintLoop base cutoff maxVal n [] = Inr n"
| "parseUintLoop base cutoff maxVal n (c # cs) =
     (case digitVal c of
        None \<Rightarrow> Inl ErrSyntax
      | Some d \<Rightarrow>
          if base \<le> d then Inl ErrSyntax
          else if cutoff \<le> n then Inl ErrRange
          else if 18446744073709551616 \<le> n * base + d \<or> maxVal < n * base + d then Inl ErrRange
          else parseUintLoop base cutoff maxVal (n * base + d) cs)"

definition ParseUint :: "string \<Rightarrow> nat \<Rightarrow> nat \<Rightarrow> conv_error + nat" where
  \<comment> \<open>\<^verbatim>\<open>strconv.ParseUint(s, base, bitSize)\<close> for \<open>2 \<le> base \<le> 36\<close> and \<open>1 \<le> bitSize \<le> 64\<close>\<close>
  "ParseUint s base bitSize =
     (if s = [] then Inl (NumError ''ParseUint'' s ErrSyntax)
      else case parseUintLoop base (18446744073709551615 div base + 1) (2 ^ bitSize - 1) 0 s of
             Inl k \<Rightarrow> Inl (NumError ''ParseUint'' s k)
           | Inr n \<Rightarrow> Inr n)"

text \<open>
  \<^verbatim>\<open>strconv.ParseInt(s, base, bitSize)\<close>; a \<^verbatim>\<open>bitSize\<close> of 0 means \<^verbatim>\<open>int\<close>, 64 bits. When
  \<^verbatim>\<open>ParseUint\<close> fails with a range error it returns the largest \<^verbatim>\<open>uint64\<close>, which the
  range checks below then reject.
\<close>

definition ParseInt :: "string \<Rightarrow> nat \<Rightarrow> nat \<Rightarrow> conv_error + 64 word" where
  "ParseInt s base bitSize =
     (if s = [] then Inl (NumError ''ParseInt'' s ErrSyntax)
      else
        let neg = (hd s = CHR ''-'');
            s1 = (if hd s = CHR ''+'' \<or> hd s = CHR ''-'' then tl s else s);
            r = ParseUint s1 base 64
        in case r of
             Inl (NumError f num ErrSyntax) \<Rightarrow> Inl (NumError ''ParseInt'' s ErrSyntax)
           | Inl (ExpectedBytes k) \<Rightarrow> Inl (ExpectedBytes k)
           | _ \<Rightarrow>
              let un = (case r of Inr n \<Rightarrow> n | Inl e \<Rightarrow> 18446744073709551615);
                  cutoff = 2 ^ ((if bitSize = 0 then 64 else bitSize) - 1)
              in if \<not> neg \<and> cutoff \<le> un then Inl (NumError ''ParseInt'' s ErrRange)
                 else if neg \<and> cutoff < un then Inl (NumError ''ParseInt'' s ErrRange)
                 else Inr (if neg then - word_of_nat un else word_of_nat un))"

fun atoiDigits :: "nat \<Rightarrow> string \<Rightarrow> nat option" where
  \<comment> \<open>the digit loop of the fast path of \<^verbatim>\<open>Atoi\<close>; fewer than 19 digits cannot overflow an \<^verbatim>\<open>int\<close>\<close>
  "atoiDigits n [] = Some n"
| "atoiDigits n (ch # cs) =
     (if CHR ''0'' \<le> ch \<and> ch \<le> CHR ''9'' then atoiDigits (n * 10 + (of_char ch - 48)) cs
      else None)"

definition Atoi :: "string \<Rightarrow> conv_error + 64 word" where
  \<comment> \<open>\<^verbatim>\<open>strconv.Atoi\<close>: a fast path for 1 to 18 bytes, \<^verbatim>\<open>ParseInt(s, 10, 0)\<close> otherwise\<close>
  "Atoi s =
     (if 0 < length s \<and> length s < 19
      then
        let s1 = (if hd s = CHR ''-'' \<or> hd s = CHR ''+'' then tl s else s)
        in if s1 = [] then Inl (NumError ''Atoi'' s ErrSyntax)
           else (case atoiDigits 0 s1 of
                   None \<Rightarrow> Inl (NumError ''Atoi'' s ErrSyntax)
                 | Some n \<Rightarrow> Inr (if hd s = CHR ''-'' then - word_of_nat n else word_of_nat n))
      else (case ParseInt s 10 0 of
              Inl (NumError f num e) \<Rightarrow> Inl (NumError ''Atoi'' num e)
            | Inl (ExpectedBytes k) \<Rightarrow> Inl (ExpectedBytes k)
            | Inr i \<Rightarrow> Inr i))"

subsection \<open>Formatting verbs of \<^verbatim>\<open>fmt\<close>\<close>

definition decDigit :: "nat \<Rightarrow> char" where
  "decDigit d = ''0123456789'' ! (d mod 10)"

function decDigits :: "nat \<Rightarrow> string" where
  \<comment> \<open>the digits of \<open>n\<close>, most significant first; at least one\<close>
  "decDigits n =
     (if n < 10 then [decDigit n] else decDigits (n div 10) @ [decDigit (n mod 10)])"
  by pat_completeness auto
termination
  by (relation "measure id") auto

declare decDigits.simps [simp del]

definition fmtD :: "64 word \<Rightarrow> string" where
  \<comment> \<open>the verb \<^verbatim>\<open>%d\<close> on an \<^verbatim>\<open>int\<close>: a minus sign and the digits of the magnitude\<close>
  "fmtD v = (if sint v < 0 then CHR ''-'' # decDigits (unat (- v)) else decDigits (unat v))"

section \<open>The integer codec of \<^verbatim>\<open>lib.go\<close>\<close>

function leHexLoop :: "nat \<Rightarrow> string list \<Rightarrow> 32 word \<Rightarrow> conv_error + 32 word" where
  \<comment> \<open>\<^verbatim>\<open>for i := 0; i < 4; i++\<close>; the caller has checked \<open>length b = 4\<close>\<close>
  "leHexLoop i b result =
     (if i < 4
      then (case ParseUint (b ! i) 16 8 of
              Inl e \<Rightarrow> Inl e
            | Inr x \<Rightarrow> leHexLoop (i + 1) b (result OR push_bit (8 * i) (word_of_nat x)))
      else Inr result)"
  by pat_completeness auto
termination
  by (relation "measure (\<lambda>(i, b, result). 4 - i)") auto

declare leHexLoop.simps [simp del]

definition leHexToUint32 :: "string \<Rightarrow> conv_error + 32 word" where
  "leHexToUint32 s =
     (let b = Fields s
      in if length b \<noteq> 4 then Inl (ExpectedBytes (length b)) else leHexLoop 0 b 0)"

definition upperHexDigit :: "nat \<Rightarrow> char" where
  "upperHexDigit d = ''0123456789ABCDEF'' ! (d mod 16)"

definition fmt02X :: "8 word \<Rightarrow> string" where
  \<comment> \<open>the verb \<^verbatim>\<open>%02X\<close> on a \<^verbatim>\<open>byte\<close>: two upper-case digits\<close>
  "fmt02X b = [upperHexDigit (unat b div 16), upperHexDigit (unat b mod 16)]"

definition encodeLEUint32Hex :: "32 word \<Rightarrow> string" where
  "encodeLEUint32Hex val =
     fmt02X (ucast val) @ '' '' @ fmt02X (ucast (drop_bit 8 val)) @ '' '' @
     fmt02X (ucast (drop_bit 16 val)) @ '' '' @ fmt02X (ucast (drop_bit 24 val))"

section \<open>The data model of \<^verbatim>\<open>lib.go\<close>\<close>

text \<open>
  \<^verbatim>\<open>Filetype\<close>, \<^verbatim>\<open>SignalType\<close> and \<^verbatim>\<open>Protocol\<close> are string types; \<^verbatim>\<open>int\<close> is a 64-bit word read
  as signed. The type \<^verbatim>\<open>float64\<close> of \<^verbatim>\<open>DutyCycle\<close> is the type parameter \<open>'f\<close>, whose \<open>0\<close>
  is the zero value of \<^verbatim>\<open>Signal{}\<close>. A \<^verbatim>\<open>nil\<close> slice and an empty one are both \<open>[]\<close>.
\<close>

record 'f Signal =
  Name :: string
  Type :: string
  Protocol :: string
  Address :: "32 word"
  Command :: "32 word"
  Frequency :: "64 word"
  DutyCycle :: 'f
  Data :: "64 word list"

record 'f SignalLib =
  Filetype :: string
  Version :: string
  Signals :: "'f Signal list"

definition SignalTypeParsed :: string where
  "SignalTypeParsed = ''parsed''"

definition SignalTypeRaw :: string where
  "SignalTypeRaw = ''raw''"

definition emptySignal :: "('f::zero) Signal" where
  \<comment> \<open>\<^verbatim>\<open>Signal{}\<close>\<close>
  "emptySignal =
     \<lparr>Name = [], Type = [], Protocol = [], Address = 0, Command = 0, Frequency = 0,
      DutyCycle = 0, Data = []\<rparr>"

datatype error =
  ParseError string nat conv_error
  \<comment> \<open>\<^verbatim>\<open>fmt.Errorf("invalid <field> at line %d: %v", lineno, err)\<close>: the field words, the number
      printed, the wrapped error\<close>

fun errorLine :: "error \<Rightarrow> nat" where
  "errorLine (ParseError field n err) = n"

section \<open>\<^verbatim>\<open>Unmarshal\<close>\<close>

text \<open>
  The loop of \<^verbatim>\<open>Unmarshal\<close> carries the library header, the signals appended so far and the
  record being read. \<open>parseFloat\<close> stands for \<^verbatim>\<open>strconv.ParseFloat(value, 64)\<close>.
\<close>

record 'f parser =
  lib :: "'f SignalLib"
  signals :: "'f Signal list"
  curr :: "'f Signal"

fun atoiAll :: "string list \<Rightarrow> conv_error + 64 word list" where
  \<comment> \<open>\<^verbatim>\<open>for i, f := range fields\<close>: stops at the first token \<^verbatim>\<open>Atoi\<close> rejects\<close>
  "atoiAll [] = Inr []"
| "atoiAll (f # fs) =
     (case Atoi f of
        Inl err \<Rightarrow> Inl err
      | Inr n \<Rightarrow> (case atoiAll fs of Inl err \<Rightarrow> Inl err | Inr ints \<Rightarrow> Inr (n # ints)))"

definition setField ::
  "(string \<Rightarrow> conv_error + 'f) \<Rightarrow> 'f parser \<Rightarrow> nat \<Rightarrow> string \<Rightarrow> string
     \<Rightarrow> error + 'f parser" where
  \<comment> \<open>the \<^verbatim>\<open>switch key\<close>\<close>
  "setField parseFloat st lineno key val =
     (if key = ''name'' then Inr (st\<lparr>curr := (curr st)\<lparr>Name := val\<rparr>\<rparr>)
      else if key = ''type'' then Inr (st\<lparr>curr := (curr st)\<lparr>Type := val\<rparr>\<rparr>)
      else if key = ''protocol'' then Inr (st\<lparr>curr := (curr st)\<lparr>Protocol := val\<rparr>\<rparr>)
      else if key = ''address'' then
        (case leHexToUint32 val of
           Inl err \<Rightarrow> Inl (ParseError ''address'' lineno err)
         | Inr addr \<Rightarrow> Inr (st\<lparr>curr := (curr st)\<lparr>Address := addr\<rparr>\<rparr>))
      else if key = ''command'' then
        (case leHexToUint32 val of
           Inl err \<Rightarrow> Inl (ParseError ''command'' lineno err)
         | Inr cmd \<Rightarrow> Inr (st\<lparr>curr := (curr st)\<lparr>Command := cmd\<rparr>\<rparr>))
      else if key = ''frequency'' then
        (case Atoi val of
           Inl err \<Rightarrow> Inl (ParseError ''frequency'' lineno err)
         | Inr freq \<Rightarrow> Inr (st\<lparr>curr := (curr st)\<lparr>Frequency := freq\<rparr>\<rparr>))
      else if key = ''duty_cycle'' then
        (case parseFloat val of
           Inl err \<Rightarrow> Inl (ParseError ''duty_cycle'' lineno err)
         | Inr duty \<Rightarrow> Inr (st\<lparr>curr := (curr st)\<lparr>DutyCycle := duty\<rparr>\<rparr>))
      else if key = ''data'' then
        (case atoiAll (Fields val) of
           Inl err \<Rightarrow> Inl (ParseError ''data int'' lineno err)
         | Inr ints \<Rightarrow> Inr (st\<lparr>curr := (curr st)\<lparr>Data := ints\<rparr>\<rparr>))
      else Inr st)"

definition handleLine ::
  "(string \<Rightarrow> conv_error + 'f) \<Rightarrow> ('f::zero) parser \<Rightarrow> nat \<Rightarrow> string \<Rightarrow> error + 'f parser" where
  \<comment> \<open>one iteration of \<^verbatim>\<open>for lineno, line := range lines\<close>\<close>
  "handleLine parseFloat st lineno raw =
     (let line = TrimSpace raw
      in if line = [] then Inr st
         else if Filetype (lib st) = [] \<and> HasPrefix line ''Filetype:''
           then Inr (st\<lparr>lib := (lib st)\<lparr>Filetype := TrimSpace (TrimPrefix line ''Filetype:'')\<rparr>\<rparr>)
         else if Version (lib st) = [] \<and> HasPrefix line ''Version:''
           then Inr (st\<lparr>lib := (lib st)\<lparr>Version := TrimSpace (TrimPrefix line ''Version:'')\<rparr>\<rparr>)
         else if line = ''#''
           then (if Name (curr st) \<noteq> []
                 then Inr (st\<lparr>signals := signals st @ [curr st], curr := emptySignal\<rparr>)
                 else Inr st)
         else (case SplitColon2 line of
                 [p0, p1] \<Rightarrow> setField parseFloat st lineno (TrimSpace p0) (TrimSpace p1)
               | _ \<Rightarrow> Inr st))"

fun unmarshalLoop ::
  "(string \<Rightarrow> conv_error + 'f) \<Rightarrow> ('f::zero) parser \<Rightarrow> nat \<Rightarrow> string list \<Rightarrow> error + 'f parser" where
  \<comment> \<open>\<open>lineno\<close> is the index \<^verbatim>\<open>range\<close> yields: 0 for the first line\<close>
  "unmarshalLoop parseFloat st lineno [] = Inr st"
| "unmarshalLoop parseFloat st lineno (l # ls) =
     (case handleLine parseFloat st lineno l of
        Inl e \<Rightarrow> Inl e
      | Inr st' \<Rightarrow> unmarshalLoop parseFloat st' (lineno + 1) ls)"

definition initParser :: "('f::zero) parser" where
  "initParser =
     \<lparr>lib = \<lparr>Filetype = [], Version = [], Signals = []\<rparr>, signals = [], curr = emptySignal\<rparr>"

definition finish :: "'f parser \<Rightarrow> 'f SignalLib" where
  \<comment> \<open>after the loop: the record in progress is appended when it has a name\<close>
  "finish st =
     (lib st)\<lparr>Signals := (if Name (curr st) \<noteq> [] then signals st @ [curr st] else signals st)\<rparr>"

definition Unmarshal :: "(string \<Rightarrow> conv_error + 'f) \<Rightarrow> string \<Rightarrow> error + ('f::zero) SignalLib" where
  "Unmarshal parseFloat s =
     (case unmarshalLoop parseFloat initParser 0 (SplitNewline s) of
        Inl e \<Rightarrow> Inl e
      | Inr st \<Rightarrow> Inr (finish st))"

section \<open>\<^verbatim>\<open>Marshal\<close>\<close>

text \<open>
  The buffer is passed through the writes in the order the source makes them. \<open>fmtF6\<close>
  stands for the verb \<^verbatim>\<open>%.6f\<close> on a \<^verbatim>\<open>float64\<close>.
\<close>

definition writeSignal :: "('f \<Rightarrow> string) \<Rightarrow> string \<Rightarrow> 'f Signal \<Rightarrow> string" where
  \<comment> \<open>the body of \<^verbatim>\<open>for _, s := range l.Signals\<close>\<close>
  "writeSignal fmtF6 buf s =
     (let buf = buf @ [CHR ''#'', CHR 0x0A];
          buf = buf @ ''name: '' @ Name s @ [CHR 0x0A];
          buf = buf @ ''type: '' @ Type s @ [CHR 0x0A]
      in if Type s = SignalTypeParsed then
           (let buf = buf @ ''protocol: '' @ Protocol s @ [CHR 0x0A];
                buf = buf @ ''address: '' @ encodeLEUint32Hex (Address s) @ [CHR 0x0A];
                buf = buf @ ''command: '' @ encodeLEUint32Hex (Command s) @ [CHR 0x0A]
            in buf)
         else if Type s = SignalTypeRaw then
           (let buf = buf @ ''frequency: '' @ fmtD (Frequency s) @ [CHR 0x0A];
                buf = buf @ ''duty_cycle: '' @ fmtF6 (DutyCycle s) @ [CHR 0x0A];
                buf = buf @ ''data:'';
                buf = foldl (\<lambda>buf v. buf @ '' '' @ fmtD v) buf (Data s)
            in buf @ [CHR 0x0A])
         else buf)"

definition Marshal :: "('f \<Rightarrow> string) \<Rightarrow> 'f SignalLib \<Rightarrow> error + string" where
  \<comment> \<open>the source returns the buffer and a \<^verbatim>\<open>nil\<close> error on its only path\<close>
  "Marshal fmtF6 l =
     (let buf = [];
          buf = buf @ ''Filetype: '' @ Filetype l @ [CHR 0x0A];
          buf = buf @ ''Version: '' @ Version l @ [CHR 0x0A];
          buf = foldl (writeSignal fmtF6) buf (Signals l)
      in Inr buf)"

section \<open>Notions the statements use\<close>

text \<open>Bytes by their place in the encodings of white space.\<close>

definition spaceLead :: "char \<Rightarrow> bool" where
  "spaceLead c = (c \<in> set (map hd spaceRunes))"

definition spaceLast :: "char \<Rightarrow> bool" where
  "spaceLast c = (c \<in> set (map last spaceRunes))"

definition spaceInner :: "char \<Rightarrow> bool" where
  "spaceInner c = (\<exists>e \<in> set spaceRunes. c \<in> set (butlast e))"

text \<open>
  Hexadecimal tokens as the specification describes them: the digits \<open>0-9\<close>, \<open>A-F\<close>, \<open>a-f\<close>,
  the number a token denotes, a byte token (any number of digits, value at most 255), the
  two-digit token, and the normal form of a token list (upper case, two digits per token,
  single spaces).
\<close>

definition isHexDigit :: "char \<Rightarrow> bool" where
  "isHexDigit c \<longleftrightarrow>
     (CHR ''0'' \<le> c \<and> c \<le> CHR ''9'') \<or> (CHR ''A'' \<le> c \<and> c \<le> CHR ''F'') \<or>
     (CHR ''a'' \<le> c \<and> c \<le> CHR ''f'')"

definition hexDigitValue :: "char \<Rightarrow> nat" where
  "hexDigitValue c =
     (if c \<le> CHR ''9'' then of_char c - of_char (CHR ''0'')
      else if c \<le> CHR ''F'' then of_char c - of_char (CHR ''A'') + 10
      else of_char c - of_char (CHR ''a'') + 10)"

definition hexValue :: "string \<Rightarrow> nat" where
  "hexValue t = foldl (\<lambda>a c. a * 16 + hexDigitValue c) 0 t"

definition hexByteToken :: "string \<Rightarrow> bool" where
  "hexByteToken t \<longleftrightarrow> t \<noteq> [] \<and> list_all isHexDigit t \<and> hexValue t \<le> 255"

definition toUpperHex :: "char \<Rightarrow> char" where
  "toUpperHex c = (if CHR ''a'' \<le> c \<and> c \<le> CHR ''f'' then char_of (of_char c - (32::nat)) else c)"

definition normalizeToken :: "string \<Rightarrow> string" where
  "normalizeToken t = map toUpperHex (replicate (2 - length t) CHR ''0'' @ t)"

fun joinSpace :: "string list \<Rightarrow> string" where
  "joinSpace [] = []"
| "joinSpace [t] = t"
| "joinSpace (t # ts) = t @ CHR 0x20 # joinSpace ts"

definition normalizeHex :: "string \<Rightarrow> string" where
  "normalizeHex s = joinSpace (map normalizeToken (Fields s))"

definition wellFormedHexToken :: "string \<Rightarrow> bool" where
  "wellFormedHexToken t \<longleftrightarrow> (length t = 1 \<or> length t = 2) \<and> list_all isHexDigit t"

definition wellFormedHex4 :: "string \<Rightarrow> bool" where
  "wellFormedHex4 s \<longleftrightarrow> length (Fields s) = 4 \<and> list_all wellFormedHexToken (Fields s)"

definition twoDigitHexByte :: "string \<Rightarrow> bool" where
  "twoDigitHexByte t \<longleftrightarrow> length t = 2 \<and> list_all isHexDigit t"

fun firstFiletype :: "string list \<Rightarrow> string" where
  "firstFiletype [] = []"
| "firstFiletype (l # ls) =
     (let line = TrimSpace l
      in if HasPrefix line ''Filetype:'' \<and> TrimSpace (TrimPrefix line ''Filetype:'') \<noteq> []
         then TrimSpace (TrimPrefix line ''Filetype:'')
         else firstFiletype ls)"

definition malformedField :: "(string \<Rightarrow> conv_error + 'f) \<Rightarrow> string \<Rightarrow> bool" where
  "malformedField parseFloat raw =
     (case SplitColon2 (TrimSpace raw) of
        [p0, p1] \<Rightarrow>
          (let key = TrimSpace p0; val = TrimSpace p1
           in (key = ''address'' \<and> isl (leHexToUint32 val)) \<or>
              (key = ''command'' \<and> isl (leHexToUint32 val)) \<or>
              (key = ''frequency'' \<and> isl (Atoi val)) \<or>
              (key = ''duty_cycle'' \<and> isl (parseFloat val)) \<or>
              (key = ''data'' \<and> list_ex (\<lambda>tok. isl (Atoi tok)) (Fields val)))
      | _ \<Rightarrow> False)"

definition isDecDigit :: "char \<Rightarrow> bool" where
  "isDecDigit c \<longleftrightarrow> CHR ''0'' \<le> c \<and> c \<le> CHR ''9''"

definition parseFloatEx :: "string \<Rightarrow> conv_error + int" where
  "parseFloatEx s =
     (if s = ''0.330000'' then Inr 330000
      else if s = ''0.000000'' then Inr 0
      else Inl (NumError ''ParseFloat'' s ErrSyntax))"

definition fmtF6Ex :: "int \<Rightarrow> string" where
  "fmtF6Ex d = (if d = 330000 then ''0.330000'' else ''0.000000'')"

definition exampleText :: string where
  "exampleText =
     ''Filetype: IR signals file'' @ [CHR 0x0A] @ ''Version: 1'' @ [CHR 0x0A] @
     ''#'' @ [CHR 0x0A] @ ''name: Power'' @ [CHR 0x0A] @ ''type: parsed'' @ [CHR 0x0A] @
     ''protocol: NEC'' @ [CHR 0x0A] @ ''address: 00 00 00 00'' @ [CHR 0x0A] @
     ''command: 15 00 00 00'' @ [CHR 0x0A]"

definition exampleLib :: "('f::zero) SignalLib" where
  "exampleLib =
     \<lparr>Filetype = ''IR signals file'', Version = ''1'',
      Signals = [\<lparr>Name = ''Power'', Type = ''parsed'', Protocol = ''NEC'', Address = 0,
                  Command = 21, Frequency = 0, DutyCycle = 0, Data = []\<rparr>]\<rparr>"

definition badAddressText :: string where
  "badAddressText =
     ''Filetype: IR signals file'' @ [CHR 0x0A] @ ''Version: 1'' @ [CHR 0x0A] @
     ''#'' @ [CHR 0x0A] @ ''name: Power'' @ [CHR 0x0A] @ ''address: ZZ 00 00 00'' @ [CHR 0x0A]"

definition twoFiletypeText :: string where
  "twoFiletypeText = ''Filetype:'' @ [CHR 0x0A] @ ''Filetype: IR library file'' @ [CHR 0x0A]"

definition unknownKeyText :: string where
  "unknownKeyText = ''#'' @ [CHR 0x0A] @ ''#'' @ [CHR 0x0A] @ ''name: Power'' @ [CHR 0x0A] @
     ''foo: bar'' @ [CHR 0x0A] @ ''junk'' @ [CHR 0x0A] @ ''#'' @ [CHR 0x0A] @ ''#''"

section \<open>White space, fields and hexadecimal bytes\<close>

lemma spaceRunes_nonempty: "e \<in> set spaceRunes \<Longrightarrow> e \<noteq> []"
  by (auto simp: spaceRunes_def)

lemma find_Some_mem: "find P xs = Some x \<Longrightarrow> P x \<and> x \<in> set xs"
  by (induction xs) (auto split: if_splits)

lemma leadSpace_0_iff: "leadSpace s = 0 \<longleftrightarrow> (\<forall>e\<in>set spaceRunes. \<not> prefix e s)"
proof (cases "find (\<lambda>e. prefix e s) spaceRunes")
  case None
  then have "leadSpace s = 0" by (simp add: leadSpace_def)
  moreover from None have "\<forall>e\<in>set spaceRunes. \<not> prefix e s" by (simp add: find_None_iff)
  ultimately show ?thesis by simp
next
  case (Some e)
  from find_Some_mem [OF Some] have "e \<in> set spaceRunes" "prefix e s" by simp_all
  moreover from this have "e \<noteq> []" by (simp add: spaceRunes_nonempty)
  ultimately show ?thesis using Some by (auto simp: leadSpace_def)
qed

lemma trailSpace_0_iff: "trailSpace s = 0 \<longleftrightarrow> (\<forall>e\<in>set spaceRunes. \<not> suffix e s)"
proof (cases "find (\<lambda>e. suffix e s) spaceRunes")
  case None
  then have "trailSpace s = 0" by (simp add: trailSpace_def)
  moreover from None have "\<forall>e\<in>set spaceRunes. \<not> suffix e s" by (simp add: find_None_iff)
  ultimately show ?thesis by simp
next
  case (Some e)
  from find_Some_mem [OF Some] have "e \<in> set spaceRunes" "suffix e s" by simp_all
  moreover from this have "e \<noteq> []" by (simp add: spaceRunes_nonempty)
  ultimately show ?thesis using Some by (auto simp: trailSpace_def)
qed

lemma leadSpace_plain: "\<not> spaceLead c \<Longrightarrow> leadSpace (c # s) = 0"
  unfolding leadSpace_0_iff spaceLead_def
  by (force simp: prefix_Cons spaceRunes_nonempty)

lemma trailSpace_plain: "\<not> spaceLast c \<Longrightarrow> trailSpace (s @ [c]) = 0"
proof -
  assume a: "\<not> spaceLast c"
  have "\<not> suffix e (s @ [c])" if e: "e \<in> set spaceRunes" for e
  proof
    assume "suffix e (s @ [c])"
    then obtain zs where "e = zs @ [c]"
      using spaceRunes_nonempty [OF e] by (auto simp: suffix_snoc)
    then have "last e = c" by simp
    with e a show False by (auto simp: spaceLast_def)
  qed
  then show ?thesis by (simp add: trailSpace_0_iff)
qed

lemma leadSpace_space: "leadSpace (CHR 0x20 # s) = 1"
  by (simp add: leadSpace_def spaceRunes_def)

lemma trailSpace_space: "trailSpace (s @ [CHR 0x20]) = 1"
  by (simp add: trailSpace_def spaceRunes_def suffix_to_prefix)

lemma leadSpace_le: "leadSpace s \<le> length s"
  by (auto simp: leadSpace_def find_Some_iff prefix_def split: option.splits)

lemma trailSpace_le: "trailSpace s \<le> length s"
  by (auto simp: trailSpace_def find_Some_iff suffix_def split: option.splits)

lemma length_trimLeft: "length (trimLeft s) \<le> length s"
proof (induction s rule: trimLeft.induct)
  case (1 s)
  show ?case
  proof (cases "leadSpace s = 0 \<or> s = []")
    case True then show ?thesis by (simp add: trimLeft.simps)
  next
    case False
    with 1 have "length (trimLeft (drop (leadSpace s) s)) \<le> length (drop (leadSpace s) s)" by simp
    with False show ?thesis by (subst trimLeft.simps) simp
  qed
qed

lemma length_trimRight: "length (trimRight s) \<le> length s"
proof (induction s rule: trimRight.induct)
  case (1 s)
  show ?case
  proof (cases "trailSpace s = 0 \<or> s = []")
    case True then show ?thesis by (simp add: trimRight.simps)
  next
    case False
    with 1 have "length (trimRight (take (length s - trailSpace s) s)) \<le> length (take (length s - trailSpace s) s)" by simp
    with False show ?thesis by (subst trimRight.simps) simp
  qed
qed

lemma trimLeft_id_iff: "trimLeft s = s \<longleftrightarrow> leadSpace s = 0 \<or> s = []"
proof
  assume a: "trimLeft s = s"
  show "leadSpace s = 0 \<or> s = []"
  proof (rule ccontr)
    assume n: "\<not> (leadSpace s = 0 \<or> s = [])"
    then have "trimLeft s = trimLeft (drop (leadSpace s) s)" by (subst trimLeft.simps) simp
    moreover have "length (trimLeft (drop (leadSpace s) s)) \<le> length (drop (leadSpace s) s)"
      by (rule length_trimLeft)
    ultimately have "length (trimLeft s) < length s" using n by (cases s) auto
    with a show False by simp
  qed
next
  assume "leadSpace s = 0 \<or> s = []"
  then show "trimLeft s = s" by (subst trimLeft.simps) simp
qed

lemma trimRight_id_iff: "trimRight s = s \<longleftrightarrow> trailSpace s = 0 \<or> s = []"
proof
  assume a: "trimRight s = s"
  show "trailSpace s = 0 \<or> s = []"
  proof (rule ccontr)
    assume n: "\<not> (trailSpace s = 0 \<or> s = [])"
    then have "trimRight s = trimRight (take (length s - trailSpace s) s)" by (subst trimRight.simps) simp
    moreover have "length (trimRight (take (length s - trailSpace s) s)) \<le> length (take (length s - trailSpace s) s)"
      by (rule length_trimRight)
    ultimately have "length (trimRight s) < length s" using n by (cases s) auto
    with a show False by simp
  qed
next
  assume "trailSpace s = 0 \<or> s = []"
  then show "trimRight s = s" by (subst trimRight.simps) simp
qed

lemma TrimSpace_id_iff: "TrimSpace s = s \<longleftrightarrow> trimLeft s = s \<and> trimRight s = s"
proof
  assume a: "TrimSpace s = s"
  have "length s = length (trimRight (trimLeft s))" using a by (simp add: TrimSpace_def)
  also have "\<dots> \<le> length (trimLeft s)" by (rule length_trimRight)
  finally have "length (trimLeft s) = length s" using length_trimLeft [of s] by simp
  have l: "trimLeft s = s"
  proof (rule ccontr)
    assume n: "trimLeft s \<noteq> s"
    then have c: "\<not> (leadSpace s = 0 \<or> s = [])" by (simp add: trimLeft_id_iff)
    then have "trimLeft s = trimLeft (drop (leadSpace s) s)" by (subst trimLeft.simps) simp
    moreover have "length (trimLeft (drop (leadSpace s) s)) \<le> length (drop (leadSpace s) s)"
      by (rule length_trimLeft)
    ultimately have "length (trimLeft s) < length s" using c by (cases s) auto
    with \<open>length (trimLeft s) = length s\<close> show False by simp
  qed
  with a show "trimLeft s = s \<and> trimRight s = s" by (simp add: TrimSpace_def)
next
  assume "trimLeft s = s \<and> trimRight s = s"
  then show "TrimSpace s = s" by (simp add: TrimSpace_def)
qed

lemma trailSpace_append:
  assumes v: "v \<noteq> []" and a: "\<not> spaceInner a"
  shows "trailSpace (p @ a # v) = trailSpace v"
proof -
  have "suffix e (p @ a # v) = suffix e v" if e: "e \<in> set spaceRunes" for e
  proof
    assume "suffix e (p @ a # v)"
    then obtain zs where z: "p @ a # v = zs @ e" by (auto simp: suffix_def)
    then have "(p @ [a]) @ v = zs @ e" by simp
    then consider us where "p @ [a] = zs @ us" "us @ v = e" | us where "(p @ [a]) @ us = zs" "v = us @ e"
      unfolding append_eq_append_conv2 by blast
    then show "suffix e v"
    proof cases
      case 1
      show ?thesis
      proof (cases "us = []")
        case True with 1 show ?thesis by simp
      next
        case False
        then have "last us = a" using 1(1) by (metis last_appendR last_snoc)
        then have "a \<in> set us" using False by (metis last_in_set)
        moreover have "butlast e = us @ butlast v" using 1(2) v by (auto simp: butlast_append)
        ultimately have "a \<in> set (butlast e)" by simp
        with e a show ?thesis by (auto simp: spaceInner_def)
      qed
    next
      case 2 then show ?thesis by (auto simp: suffix_def)
    qed
  next
    assume "suffix e v"
    then have "suffix e (a # v)" by (rule suffix_ConsI)
    then show "suffix e (p @ a # v)" by (rule suffix_appendI)
  qed
  then have "find (\<lambda>e. suffix e (p @ a # v)) spaceRunes = find (\<lambda>e. suffix e v) spaceRunes"
    by (intro find_cong) simp_all
  then show ?thesis by (simp add: trailSpace_def)
qed

lemma not_spaceInner_space: "\<not> spaceInner (CHR 0x20)"
  by (simp add: spaceInner_def spaceRunes_def)

lemma trimLeft_plain: "\<not> spaceLead c \<Longrightarrow> trimLeft (c # s) = c # s"
  by (simp add: trimLeft_id_iff leadSpace_plain)

lemma trimRight_plain: "\<not> spaceLast c \<Longrightarrow> trimRight (s @ [c]) = s @ [c]"
  by (simp add: trimRight_id_iff trailSpace_plain)

lemma trimLeft_space: "trimLeft (CHR 0x20 # s) = trimLeft s"
  by (subst trimLeft.simps) (simp add: leadSpace_space)

lemma trimRight_space: "trimRight (s @ [CHR 0x20]) = trimRight s"
  by (subst trimRight.simps) (simp add: trailSpace_space)

lemma TrimSpace_Nil: "TrimSpace [] = []"
  by (simp add: TrimSpace_def trimLeft.simps trimRight.simps)

lemma TrimSpace_space_trimmed: "TrimSpace v = v \<Longrightarrow> TrimSpace (CHR 0x20 # v) = v"
  by (simp add: TrimSpace_id_iff TrimSpace_def trimLeft_space)

lemma TrimSpace_plain_ends:
  "s \<noteq> [] \<Longrightarrow> \<not> spaceLead (hd s) \<Longrightarrow> \<not> spaceLast (last s) \<Longrightarrow> TrimSpace s = s"
proof -
  assume a: "s \<noteq> []" "\<not> spaceLead (hd s)" "\<not> spaceLast (last s)"
  have "trimLeft s = s" using a trimLeft_plain [of "hd s" "tl s"] by simp
  moreover have "trimRight s = s" using a trimRight_plain [of "last s" "butlast s"] by simp
  ultimately show ?thesis by (simp add: TrimSpace_def)
qed

text \<open>The line \<open>key: v\<close> as Marshal writes it, after TrimSpace.\<close>
lemma TrimSpace_key_line:
  assumes k: "key \<noteq> []" "\<not> spaceLead (hd key)" and v: "TrimSpace v = v"
  shows "TrimSpace (key @ '': '' @ v) = key @ '':'' @ (if v = [] then [] else CHR 0x20 # v)"
proof -
  obtain c ks where key: "key = c # ks" using k by (cases key) auto
  have l: "trimLeft (key @ '': '' @ v) = key @ '': '' @ v"
    using k key trimLeft_plain [of c "ks @ '': '' @ v"] by simp
  show ?thesis
  proof (cases "v = []")
    case True
    have "trimRight ((key @ '':'') @ [CHR 0x20]) = trimRight (key @ '':'')"
      by (rule trimRight_space)
    also have "\<dots> = key @ '':''"
      using trimRight_plain [of "CHR '':''" key] by (simp add: spaceLast_def spaceRunes_def)
    finally show ?thesis using True l by (simp add: TrimSpace_def)
  next
    case False
    from v have "trimRight v = v" by (simp add: TrimSpace_id_iff)
    with False have "trailSpace v = 0" by (simp add: trimRight_id_iff)
    then have "trailSpace ((key @ '':'') @ CHR 0x20 # v) = 0"
      using trailSpace_append [OF False not_spaceInner_space, of "key @ '':''"] by simp
    then have "trimRight ((key @ '':'') @ CHR 0x20 # v) = (key @ '':'') @ CHR 0x20 # v"
      by (simp add: trimRight_id_iff)
    then show ?thesis using False l by (simp add: TrimSpace_def)
  qed
qed

lemma SplitColon2_key:
  "CHR '':'' \<notin> set key \<Longrightarrow> SplitColon2 (key @ CHR '':'' # rest) = [key, rest]"
  by (simp add: SplitColon2_def takeWhile_append dropWhile_append)

lemma handleLine_field:
  assumes k: "key \<noteq> []" "\<not> spaceLead (hd key)" "CHR '':'' \<notin> set key"
             "hd key \<notin> {CHR ''F'', CHR ''V'', CHR ''#''}" "TrimSpace key = key"
      and v: "TrimSpace v = v"
  shows "handleLine pf st n (key @ '': '' @ v) = setField pf st n key v"
proof -
  define rest where "rest = (if v = [] then [] else CHR 0x20 # v)"
  obtain c ks where key: "key = c # ks" using k by (cases key) auto
  have line: "TrimSpace (key @ '': '' @ v) = key @ CHR '':'' # rest"
    using TrimSpace_key_line [OF k(1,2) v] by (simp add: rest_def)
  have r: "TrimSpace rest = v"
    using v by (simp add: rest_def TrimSpace_space_trimmed TrimSpace_Nil)
  have c: "c \<noteq> CHR ''F''" "c \<noteq> CHR ''V''" "c \<noteq> CHR ''#''" using k(4) key by auto
  have np: "\<not> HasPrefix (key @ CHR '':'' # rest) ''Filetype:''" "\<not> HasPrefix (key @ CHR '':'' # rest) ''Version:''"
    using c key by (simp_all add: HasPrefix_def)
  have nh: "key @ CHR '':'' # rest \<noteq> ''#''" using c key by simp
  show ?thesis
    unfolding handleLine_def line Let_def
    using np nh k(3,5) r by (simp add: SplitColon2_key)
qed

lemma fieldsFrom_Nil: "fieldsFrom cur [] = (if cur = [] then [] else [cur])"
  by (simp add: fieldsFrom.simps)

lemma fieldsFrom_plain: "\<not> spaceLead c \<Longrightarrow> fieldsFrom cur (c # s) = fieldsFrom (cur @ [c]) s"
  by (subst fieldsFrom.simps) (simp add: leadSpace_plain)

lemma fieldsFrom_space:
  "fieldsFrom cur (CHR 0x20 # s) = (if cur = [] then [] else [cur]) @ fieldsFrom [] s"
  by (subst fieldsFrom.simps) (simp add: leadSpace_space)

lemma fieldsFrom_token:
  "\<forall>c\<in>set t. \<not> spaceLead c \<Longrightarrow> fieldsFrom cur (t @ s) = fieldsFrom (cur @ t) s"
  by (induction t arbitrary: cur) (simp_all add: fieldsFrom_plain)

lemma all_chars: "list_all P (Enum.enum :: char list) \<Longrightarrow> P c"
  using enum_UNIV [where 'a = char] by (auto simp: list_all_iff)

lemma digitVal_hex_all:
  "list_all (\<lambda>c. case digitVal c of
        None \<Rightarrow> \<not> isHexDigit c
      | Some d \<Rightarrow> if d < 16 then isHexDigit c \<and> d = hexDigitValue c else \<not> isHexDigit c) Enum.enum"
  by code_simp

lemma digitVal_hex:
  "(case digitVal c of
        None \<Rightarrow> \<not> isHexDigit c
      | Some d \<Rightarrow> if d < 16 then isHexDigit c \<and> d = hexDigitValue c else \<not> isHexDigit c)"
  using digitVal_hex_all by (rule all_chars)

lemma hex_plain_all: "list_all (\<lambda>c. isHexDigit c \<longrightarrow> \<not> spaceLead c \<and> \<not> spaceLast c) Enum.enum"
  by code_simp

lemma upperHexDigit_all: "list_all (\<lambda>d. digitVal (upperHexDigit d) = Some d \<and> isHexDigit (upperHexDigit d)) [0..<16]"
  by code_simp

lemma digitVal_isHex:
  assumes "isHexDigit c"
  shows "digitVal c = Some (hexDigitValue c)" and "hexDigitValue c < 16"
proof -
  show "digitVal c = Some (hexDigitValue c)"
  proof (cases "digitVal c")
    case None with digitVal_hex [of c] assms show ?thesis by simp
  next
    case (Some d) with digitVal_hex [of c] assms show ?thesis by (cases "d < 16") simp_all
  qed
  then show "hexDigitValue c < 16"
    using digitVal_hex [of c] assms by (cases "hexDigitValue c < 16") simp_all
qed

lemma digitVal_notHex:
  assumes "\<not> isHexDigit c"
  shows "digitVal c = None \<or> (\<exists>d. digitVal c = Some d \<and> 16 \<le> d)"
proof (cases "digitVal c")
  case None then show ?thesis by simp
next
  case (Some d) with digitVal_hex [of c] assms show ?thesis by (cases "d < 16") simp_all
qed

lemma hexfold_ge: "n \<le> foldl (\<lambda>a c. a * 16 + hexDigitValue c) n t"
proof (induction t arbitrary: n)
  case Nil show ?case by simp
next
  case (Cons c cs)
  have "n \<le> n * 16 + hexDigitValue c" by simp
  also have "\<dots> \<le> foldl (\<lambda>a c. a * 16 + hexDigitValue c) (n * 16 + hexDigitValue c) cs" by (rule Cons.IH)
  finally show ?case by simp
qed

lemma parseUintLoop_hex8:
  assumes "255 < cutoff" "n \<le> 255"
  shows "parseUintLoop 16 cutoff 255 n t = Inr m \<longleftrightarrow>
         list_all isHexDigit t \<and> foldl (\<lambda>a c. a * 16 + hexDigitValue c) n t = m \<and> m \<le> 255"
  using assms(2)
proof (induction t arbitrary: n)
  case Nil then show ?case by auto
next
  case (Cons c cs)
  show ?case
  proof (cases "isHexDigit c")
    case False
    from digitVal_notHex [OF this] False show ?thesis by (elim disjE exE) simp_all
  next
    case True
    note d = digitVal_isHex [OF True]
    show ?thesis
    proof (cases "255 < n * 16 + hexDigitValue c")
      case big: True
      have "n * 16 + hexDigitValue c \<le> foldl (\<lambda>a c. a * 16 + hexDigitValue c) (n * 16 + hexDigitValue c) cs"
        by (rule hexfold_ge)
      with big have "\<not> foldl (\<lambda>a c. a * 16 + hexDigitValue c) (n * 16 + hexDigitValue c) cs \<le> 255"
        by simp
      moreover have "parseUintLoop 16 cutoff 255 n (c # cs) = Inl ErrRange"
        using d big assms(1) Cons.prems by simp
      ultimately show ?thesis by auto
    next
      case small: False
      then have le: "n * 16 + hexDigitValue c \<le> 255" by simp
      have "parseUintLoop 16 cutoff 255 n (c # cs) = parseUintLoop 16 cutoff 255 (n * 16 + hexDigitValue c) cs"
        using d small assms(1) Cons.prems by simp
      with Cons.IH [OF le] True show ?thesis by simp
    qed
  qed
qed

lemma ParseUint_hex8: "ParseUint t 16 8 = Inr m \<longleftrightarrow> hexByteToken t \<and> m = hexValue t"
proof -
  have "parseUintLoop 16 ((2 ^ 64 - 1) div 16 + 1) (2 ^ 8 - 1) 0 t = Inr m \<longleftrightarrow>
         list_all isHexDigit t \<and> foldl (\<lambda>a c. a * 16 + hexDigitValue c) 0 t = m \<and> m \<le> 255"
    using parseUintLoop_hex8 [of "(2 ^ 64 - 1) div 16 + 1" 0 t m] by simp
  then show ?thesis
    by (auto simp: ParseUint_def hexByteToken_def hexValue_def split: sum.splits)
qed

lemma ParseUint_hex8_fails: "(\<exists>e. ParseUint t 16 8 = Inl e) \<longleftrightarrow> \<not> hexByteToken t"
proof (cases "ParseUint t 16 8")
  case (Inl e) then show ?thesis using ParseUint_hex8 [of t] by auto
next
  case (Inr m) then show ?thesis using ParseUint_hex8 [of t m] by auto
qed

lemma leHexLoop_step:
  "i < 4 \<Longrightarrow> leHexLoop i b r =
     (case ParseUint (b ! i) 16 8 of
        Inl e \<Rightarrow> Inl e
      | Inr x \<Rightarrow> leHexLoop (Suc i) b (r OR push_bit (8 * i) (word_of_nat x)))"
  by (subst leHexLoop.simps) (simp cong: sum.case_cong)

lemma leHexLoop_done: "leHexLoop (Suc (Suc (Suc (Suc 0)))) b r = Inr r"
  by (subst leHexLoop.simps) simp

lemma or_push_bit_nat:
  fixes x y :: nat
  assumes "x < 2 ^ k"
  shows "x OR push_bit k y = x + 2 ^ k * y"
proof -
  have t: "take_bit k x = x" using assms by (simp add: take_bit_nat_eq_self)
  have "x AND push_bit k y = 0"
  proof (rule bit_eqI)
    fix n
    have "bit x n \<Longrightarrow> n < k" using t by (metis bit_take_bit_iff)
    then show "bit (x AND push_bit k y) n = bit (0::nat) n" by (auto simp: bit_simps)
  qed
  then have "x + push_bit k y = x OR push_bit k y" by (rule disjunctive_add_eq_or)
  then show ?thesis by (simp add: push_bit_eq_mult mult.commute)
qed

lemma bytes_or_add:
  assumes "x0 \<le> 255" "x1 \<le> 255" "x2 \<le> 255" "x3 \<le> 255"
  shows "unat (word_of_nat x0 OR push_bit 8 (word_of_nat x1) OR push_bit 16 (word_of_nat x2)
             OR push_bit 24 (word_of_nat x3) :: 32 word) = x0 + 256 * x1 + 65536 * x2 + 16777216 * x3"
proof -
  have 1: "x0 OR push_bit 8 (x1 OR push_bit 8 (x2 OR push_bit 8 x3)) = x0 + 256 * x1 + 65536 * x2 + 16777216 * x3"
    using assms by (simp add: or_push_bit_nat [where k = 8, simplified])
  have 2: "x0 OR push_bit 8 (x1 OR push_bit 8 (x2 OR push_bit 8 x3))
         = x0 OR push_bit 8 x1 OR push_bit 16 x2 OR push_bit 24 x3"
    by (simp add: push_bit_or push_bit_push_bit or.assoc)
  have "(word_of_nat x0 OR push_bit 8 (word_of_nat x1) OR push_bit 16 (word_of_nat x2)
             OR push_bit 24 (word_of_nat x3) :: 32 word)
        = word_of_nat (x0 OR push_bit 8 x1 OR push_bit 16 x2 OR push_bit 24 x3)"
    by (simp add: of_nat_or_eq of_nat_push_bit)
  also have "\<dots> = word_of_nat (x0 + 256 * x1 + 65536 * x2 + 16777216 * x3)"
    using 1 2 by simp
  finally have "unat (word_of_nat x0 OR push_bit 8 (word_of_nat x1) OR push_bit 16 (word_of_nat x2)
             OR push_bit 24 (word_of_nat x3) :: 32 word)
      = unat (word_of_nat (x0 + 256 * x1 + 65536 * x2 + 16777216 * x3) :: 32 word)"
    by (rule arg_cong)
  also have "\<dots> = (x0 + 256 * x1 + 65536 * x2 + 16777216 * x3) mod 2 ^ 32"
    by (simp only: unat_of_nat) simp
  also have "\<dots> = x0 + 256 * x1 + 65536 * x2 + 16777216 * x3"
    using assms by simp
  finally show ?thesis .
qed

lemma leHexLoop_unroll:
  "leHexLoop 0 [t0, t1, t2, t3] 0 =
     (case ParseUint t0 16 8 of Inl e \<Rightarrow> Inl e | Inr x0 \<Rightarrow>
      case ParseUint t1 16 8 of Inl e \<Rightarrow> Inl e | Inr x1 \<Rightarrow>
      case ParseUint t2 16 8 of Inl e \<Rightarrow> Inl e | Inr x2 \<Rightarrow>
      case ParseUint t3 16 8 of Inl e \<Rightarrow> Inl e | Inr x3 \<Rightarrow>
        Inr (word_of_nat x0 OR push_bit 8 (word_of_nat x1) OR push_bit 16 (word_of_nat x2)
             OR push_bit 24 (word_of_nat x3)))"
proof -
  have s: "leHexLoop 0 b r = (case ParseUint (b ! 0) 16 8 of Inl e \<Rightarrow> Inl e
              | Inr x \<Rightarrow> leHexLoop (Suc 0) b (r OR push_bit (8 * 0) (word_of_nat x)))"
     "leHexLoop (Suc 0) b r = (case ParseUint (b ! Suc 0) 16 8 of Inl e \<Rightarrow> Inl e
              | Inr x \<Rightarrow> leHexLoop (Suc (Suc 0)) b (r OR push_bit (8 * Suc 0) (word_of_nat x)))"
     "leHexLoop (Suc (Suc 0)) b r = (case ParseUint (b ! Suc (Suc 0)) 16 8 of Inl e \<Rightarrow> Inl e
              | Inr x \<Rightarrow> leHexLoop (Suc (Suc (Suc 0))) b (r OR push_bit (8 * Suc (Suc 0)) (word_of_nat x)))"
     "leHexLoop (Suc (Suc (Suc 0))) b r = (case ParseUint (b ! Suc (Suc (Suc 0))) 16 8 of Inl e \<Rightarrow> Inl e
              | Inr x \<Rightarrow> leHexLoop (Suc (Suc (Suc (Suc 0)))) b (r OR push_bit (8 * Suc (Suc (Suc 0))) (word_of_nat x)))"
    for b r
    by (rule leHexLoop_step, simp)+
  show ?thesis
    by (simp only: s leHexLoop_done nth_Cons_0 nth_Cons_Suc) (simp add: or.assoc cong: sum.case_cong)
qed

lemma leHexToUint32_ok:
  "leHexToUint32 s = Inr v \<longleftrightarrow>
     length (Fields s) = 4 \<and> list_all hexByteToken (Fields s) \<and>
     v = word_of_nat (hexValue (Fields s ! 0)) OR push_bit 8 (word_of_nat (hexValue (Fields s ! 1)))
         OR push_bit 16 (word_of_nat (hexValue (Fields s ! 2)))
         OR push_bit 24 (word_of_nat (hexValue (Fields s ! 3)))"
proof (cases "length (Fields s) = 4")
  case False
  then show ?thesis by (simp add: leHexToUint32_def)
next
  case True
  then obtain t0 t1 t2 t3 where b: "Fields s = [t0, t1, t2, t3]"
    by (auto simp: length_Suc_conv numeral_eq_Suc)
  have p: "ParseUint t 16 8 = (if hexByteToken t then Inr (hexValue t) else Inl (projl (ParseUint t 16 8)))" for t
    using ParseUint_hex8 [of t] by (cases "ParseUint t 16 8") auto
  show ?thesis
    unfolding leHexToUint32_def b Let_def leHexLoop_unroll
    by (subst p [of t0], subst p [of t1], subst p [of t2], subst p [of t3]) auto
qed

lemma upper_hex_all:
  "list_all (\<lambda>c. isHexDigit c \<longrightarrow> upperHexDigit (hexDigitValue c) = toUpperHex c) Enum.enum"
  by code_simp

lemma upperHexDigit_value: "isHexDigit c \<Longrightarrow> upperHexDigit (hexDigitValue c) = toUpperHex c"
  using all_chars [OF upper_hex_all, of c] by simp

lemma upperHexDigit_props:
  assumes "d < 16"
  shows "isHexDigit (upperHexDigit d)" "hexDigitValue (upperHexDigit d) = d"
    "\<not> spaceLead (upperHexDigit d)"
proof -
  from assms have "d \<in> set [0..<16]" by simp
  with upperHexDigit_all have 1: "digitVal (upperHexDigit d) = Some d \<and> isHexDigit (upperHexDigit d)"
    unfolding list_all_iff by blast
  then show "isHexDigit (upperHexDigit d)" by simp
  with digitVal_isHex(1) [of "upperHexDigit d"] 1 show "hexDigitValue (upperHexDigit d) = d" by simp
  from all_chars [OF hex_plain_all, of "upperHexDigit d"] 1 show "\<not> spaceLead (upperHexDigit d)" by simp
qed

lemma fmt02X_token:
  "hexByteToken (fmt02X b)" "hexValue (fmt02X b) = unat b" "\<forall>c\<in>set (fmt02X b). \<not> spaceLead c"
proof -
  have lt: "unat b div 16 < 16" "unat b mod 16 < 16"
    using unsigned_less [of b, where 'a = nat] by (simp_all add: less_mult_imp_div_less)
  show v: "hexValue (fmt02X b) = unat b"
    by (simp add: hexValue_def fmt02X_def upperHexDigit_props(2) [OF lt(1)] upperHexDigit_props(2) [OF lt(2)])
  have "unat b \<le> 255" using unsigned_less [of b, where 'a = nat] by simp
  with v show "hexByteToken (fmt02X b)"
    by (simp add: hexByteToken_def) (simp add: fmt02X_def upperHexDigit_props(1) lt)
  show "\<forall>c\<in>set (fmt02X b). \<not> spaceLead c"
    by (simp add: fmt02X_def upperHexDigit_props(3) lt)
qed

lemma fieldsFrom_token_space:
  "\<forall>c\<in>set t. \<not> spaceLead c \<Longrightarrow> t \<noteq> [] \<Longrightarrow>
   fieldsFrom [] (t @ CHR 0x20 # s) = t # fieldsFrom [] s"
  using fieldsFrom_token [of t "[]" "CHR 0x20 # s"] by (simp add: fieldsFrom_space)

lemma fieldsFrom_token_end:
  "\<forall>c\<in>set t. \<not> spaceLead c \<Longrightarrow> t \<noteq> [] \<Longrightarrow> fieldsFrom [] t = [t]"
  using fieldsFrom_token [of t "[]" "[]"] by (simp add: fieldsFrom_Nil)

lemma Fields_encode:
  "Fields (encodeLEUint32Hex v) =
     [fmt02X (ucast v), fmt02X (ucast (drop_bit 8 v)), fmt02X (ucast (drop_bit 16 v)),
      fmt02X (ucast (drop_bit 24 v))]"
proof -
  have ne: "fmt02X b \<noteq> []" for b by (simp add: fmt02X_def)
  have "Fields (encodeLEUint32Hex v) =
     fieldsFrom [] (fmt02X (ucast v) @ CHR 0x20 # fmt02X (ucast (drop_bit 8 v)) @ CHR 0x20 #
        fmt02X (ucast (drop_bit 16 v)) @ CHR 0x20 # fmt02X (ucast (drop_bit 24 v)))"
    by (simp add: Fields_def encodeLEUint32Hex_def)
  also have "\<dots> = fmt02X (ucast v) # fieldsFrom [] (fmt02X (ucast (drop_bit 8 v)) @ CHR 0x20 #
        fmt02X (ucast (drop_bit 16 v)) @ CHR 0x20 # fmt02X (ucast (drop_bit 24 v)))"
    by (rule fieldsFrom_token_space [OF fmt02X_token(3) ne])
  also have "fieldsFrom [] (fmt02X (ucast (drop_bit 8 v)) @ CHR 0x20 #
        fmt02X (ucast (drop_bit 16 v)) @ CHR 0x20 # fmt02X (ucast (drop_bit 24 v)))
      = fmt02X (ucast (drop_bit 8 v)) # fieldsFrom [] (fmt02X (ucast (drop_bit 16 v)) @ CHR 0x20 # fmt02X (ucast (drop_bit 24 v)))"
    by (rule fieldsFrom_token_space [OF fmt02X_token(3) ne])
  also have "fieldsFrom [] (fmt02X (ucast (drop_bit 16 v)) @ CHR 0x20 # fmt02X (ucast (drop_bit 24 v)))
      = fmt02X (ucast (drop_bit 16 v)) # fieldsFrom [] (fmt02X (ucast (drop_bit 24 v)))"
    by (rule fieldsFrom_token_space [OF fmt02X_token(3) ne])
  also have "fieldsFrom [] (fmt02X (ucast (drop_bit 24 v))) = [fmt02X (ucast (drop_bit 24 v))]"
    by (rule fieldsFrom_token_end [OF fmt02X_token(3) ne])
  finally show ?thesis .
qed

lemma bytes_split:
  fixes n :: nat
  assumes "n < 4294967296"
  shows "n mod 256 + 256 * (n div 256 mod 256) + 65536 * (n div 65536 mod 256)
         + 16777216 * (n div 16777216 mod 256) = n"
proof -
  define a b c where "a = n div 256" and "b = a div 256" and "c = b div 256"
  have b: "n div 65536 = b" and c: "n div 16777216 = c"
    by (simp_all add: a_def b_def c_def div_mult2_eq [symmetric])
  have "c < 256" using assms unfolding c [symmetric] by (simp add: less_mult_imp_div_less)
  then have m3: "c mod 256 = c" by simp
  have 0: "n = n mod 256 + 256 * a" by (simp add: a_def)
  have 1: "a = a mod 256 + 256 * b" by (simp add: b_def)
  have 2: "b = b mod 256 + 256 * c" by (simp add: c_def)
  show ?thesis unfolding b c m3 a_def [symmetric] using 0 1 2 by linarith
qed

lemma unat_byte:
  "unat (ucast (drop_bit k (v :: 32 word)) :: 8 word) = unat v div 2 ^ k mod 256"
proof -
  have "unat (drop_bit k v) = unat v div 2 ^ k"
    by (simp only: unat_drop_bit_eq) (simp only: drop_bit_eq_div)
  then show ?thesis
    by (simp only: unsigned_ucast_eq take_bit_eq_mod) simp
qed

lemma decode_encode: "leHexToUint32 (encodeLEUint32Hex v) = Inr v"
proof -
  let ?x0 = "unat (ucast v :: 8 word)" and ?x1 = "unat (ucast (drop_bit 8 v) :: 8 word)"
  and ?x2 = "unat (ucast (drop_bit 16 v) :: 8 word)" and ?x3 = "unat (ucast (drop_bit 24 v) :: 8 word)"
  let ?w = "word_of_nat ?x0 OR push_bit 8 (word_of_nat ?x1) OR push_bit 16 (word_of_nat ?x2)
             OR push_bit 24 (word_of_nat ?x3) :: 32 word"
  have le: "?x0 \<le> 255" "?x1 \<le> 255" "?x2 \<le> 255" "?x3 \<le> 255"
    using unsigned_less [where 'a = nat and 'b = 8] by (simp_all add: less_Suc_eq_le [symmetric])
  have x: "?x0 = unat v mod 256" "?x1 = unat v div 256 mod 256" "?x2 = unat v div 65536 mod 256"
     "?x3 = unat v div 16777216 mod 256"
    using unat_byte [of 0 v] unat_byte [of 8 v] unat_byte [of 16 v] unat_byte [of 24 v] by simp_all
  have lt: "unat v < 4294967296" using unsigned_less [of v, where 'a = nat] by simp
  have "unat ?w = ?x0 + 256 * ?x1 + 65536 * ?x2 + 16777216 * ?x3"
    by (rule bytes_or_add [OF le])
  also have "\<dots> = unat v"
    unfolding x using lt by (rule bytes_split)
  finally have "?w = v" by (rule word_unat_eq_iff [THEN iffD2])
  then show ?thesis
    unfolding leHexToUint32_ok Fields_encode by (simp add: fmt02X_token)
qed

lemma byte_digits:
  fixes x0 r :: nat
  assumes "x0 \<le> 255"
  shows "(x0 + 256 * r) mod 256 = x0" "(x0 + 256 * r) div 256 = r"
  using assms by simp_all

lemma bytes_extract:
  fixes x0 x1 x2 x3 :: nat
  assumes "x0 \<le> 255" "x1 \<le> 255" "x2 \<le> 255" "x3 \<le> 255"
  defines "N \<equiv> x0 + 256 * x1 + 65536 * x2 + 16777216 * x3"
  shows "N mod 256 = x0" "N div 256 mod 256 = x1" "N div 65536 mod 256 = x2"
        "N div 16777216 mod 256 = x3"
proof -
  have N: "N = x0 + 256 * (x1 + 256 * (x2 + 256 * x3))" by (simp add: N_def)
  show "N mod 256 = x0" unfolding N using assms(1) by (rule byte_digits)
  have 1: "N div 256 = x1 + 256 * (x2 + 256 * x3)" unfolding N using assms(1) by (rule byte_digits)
  show "N div 256 mod 256 = x1" unfolding 1 using assms(2) by (rule byte_digits)
  have "N div 65536 = N div 256 div 256" by (simp add: div_mult2_eq [symmetric])
  also have "\<dots> = x2 + 256 * x3" unfolding 1 using assms(2) by (rule byte_digits)
  finally have 2: "N div 65536 = x2 + 256 * x3" .
  show "N div 65536 mod 256 = x2" unfolding 2 using assms(3) by (rule byte_digits)
  have "N div 16777216 = N div 65536 div 256" by (simp add: div_mult2_eq [symmetric])
  also have "\<dots> = x3" unfolding 2 using assms(3) by (rule byte_digits)
  finally show "N div 16777216 mod 256 = x3" using assms(4) by simp
qed

lemma ucast_bytes:
  assumes le: "x0 \<le> 255" "x1 \<le> 255" "x2 \<le> 255" "x3 \<le> 255"
  defines "w \<equiv> word_of_nat x0 OR push_bit 8 (word_of_nat x1) OR push_bit 16 (word_of_nat x2)
             OR push_bit 24 (word_of_nat x3) :: 32 word"
  shows "(ucast w :: 8 word) = word_of_nat x0" "(ucast (drop_bit 8 w) :: 8 word) = word_of_nat x1"
    "(ucast (drop_bit 16 w) :: 8 word) = word_of_nat x2" "(ucast (drop_bit 24 w) :: 8 word) = word_of_nat x3"
proof -
  have u: "unat w = x0 + 256 * x1 + 65536 * x2 + 16777216 * x3"
    unfolding w_def by (rule bytes_or_add [OF le])
  have b: "unat (word_of_nat x :: 8 word) = x" if "x \<le> 255" for x
    using that by (simp add: unat_of_nat)
  note e = bytes_extract [OF le]
  have "unat (ucast (drop_bit 0 w) :: 8 word) = x0" unfolding unat_byte u using e(1) by simp
  then show "(ucast w :: 8 word) = word_of_nat x0" using b [OF le(1)] by (simp add: word_unat_eq_iff)
  have "unat (ucast (drop_bit 8 w) :: 8 word) = x1" unfolding unat_byte u using e(2) by simp
  then show "(ucast (drop_bit 8 w) :: 8 word) = word_of_nat x1" using b [OF le(2)] by (simp add: word_unat_eq_iff)
  have "unat (ucast (drop_bit 16 w) :: 8 word) = x2" unfolding unat_byte u using e(3) by simp
  then show "(ucast (drop_bit 16 w) :: 8 word) = word_of_nat x2" using b [OF le(3)] by (simp add: word_unat_eq_iff)
  have "unat (ucast (drop_bit 24 w) :: 8 word) = x3" unfolding unat_byte u using e(4) by simp
  then show "(ucast (drop_bit 24 w) :: 8 word) = word_of_nat x3" using b [OF le(4)] by (simp add: word_unat_eq_iff)
qed

lemma wellFormedHexToken_byte:
  assumes "wellFormedHexToken t"
  shows "hexByteToken t" and "fmt02X (word_of_nat (hexValue t)) = normalizeToken t"
proof -
  have z: "upperHexDigit 0 = CHR ''0''" "toUpperHex CHR ''0'' = CHR ''0''"
    by (simp_all add: upperHexDigit_def toUpperHex_def less_eq_char_def)
  from assms consider c where "t = [c]" "isHexDigit c"
    | c1 c2 where "t = [c1, c2]" "isHexDigit c1" "isHexDigit c2"
    by (auto simp: wellFormedHexToken_def length_Suc_conv numeral_2_eq_2)
  then have "hexByteToken t \<and> fmt02X (word_of_nat (hexValue t)) = normalizeToken t"
  proof cases
    case 1
    note d = digitVal_isHex(2) [OF 1(2)]
    then have u: "unat (word_of_nat (hexDigitValue c) :: 8 word) = hexDigitValue c"
      by (simp add: unat_of_nat)
    show ?thesis
      using 1 d by (simp add: hexByteToken_def hexValue_def fmt02X_def u normalizeToken_def z
          upperHexDigit_value)
  next
    case 2
    note d = digitVal_isHex(2) [OF 2(2)] digitVal_isHex(2) [OF 2(3)]
    then have le: "hexDigitValue c1 * 16 + hexDigitValue c2 \<le> 255" by simp
    then have u: "unat (word_of_nat (hexDigitValue c1 * 16 + hexDigitValue c2) :: 8 word)
        = hexDigitValue c1 * 16 + hexDigitValue c2"
      by (simp only: unat_of_nat) simp
    have hv: "hexValue t = hexDigitValue c1 * 16 + hexDigitValue c2"
      by (simp add: hexValue_def 2)
    have "fmt02X (word_of_nat (hexDigitValue c1 * 16 + hexDigitValue c2))
        = [upperHexDigit ((hexDigitValue c1 * 16 + hexDigitValue c2) div 16),
           upperHexDigit ((hexDigitValue c1 * 16 + hexDigitValue c2) mod 16)]"
      by (simp only: fmt02X_def u)
    also have "\<dots> = [toUpperHex c1, toUpperHex c2]"
      using d 2 by (simp add: upperHexDigit_value)
    finally have "fmt02X (word_of_nat (hexValue t)) = normalizeToken t"
      unfolding hv by (simp add: normalizeToken_def 2)
    moreover have "hexByteToken t"
      unfolding hexByteToken_def hv using le 2 by simp
    ultimately show ?thesis by simp
  qed
  then show "hexByteToken t" and "fmt02X (word_of_nat (hexValue t)) = normalizeToken t" by simp_all
qed

lemma encode_decode:
  assumes "wellFormedHex4 s"
  shows "\<exists>w. leHexToUint32 s = Inr w \<and> encodeLEUint32Hex w = normalizeHex s"
proof -
  from assms obtain t0 t1 t2 t3 where b: "Fields s = [t0, t1, t2, t3]"
    by (auto simp: wellFormedHex4_def length_Suc_conv numeral_eq_Suc)
  with assms have wf: "wellFormedHexToken t0" "wellFormedHexToken t1" "wellFormedHexToken t2"
    "wellFormedHexToken t3"
    by (simp_all add: wellFormedHex4_def)
  note t = wf [THEN wellFormedHexToken_byte(1)] and n = wf [THEN wellFormedHexToken_byte(2)]
  let ?w = "word_of_nat (hexValue t0) OR push_bit 8 (word_of_nat (hexValue t1))
         OR push_bit 16 (word_of_nat (hexValue t2)) OR push_bit 24 (word_of_nat (hexValue t3)) :: 32 word"
  have le: "hexValue t0 \<le> 255" "hexValue t1 \<le> 255" "hexValue t2 \<le> 255" "hexValue t3 \<le> 255"
    using t by (simp_all add: hexByteToken_def)
  have "leHexToUint32 s = Inr ?w"
    unfolding leHexToUint32_ok b using t by simp
  moreover have "encodeLEUint32Hex ?w = normalizeHex s"
    unfolding encodeLEUint32Hex_def ucast_bytes [OF le] n normalizeHex_def b by simp
  ultimately show ?thesis by blast
qed

text \<open>
  Claim C2. Decoding the encoding of any 32-bit value gives the value back; and for a
  string of four tokens of one or two hexadecimal digits each, encoding the decoded value
  gives the normal form of the string: the four tokens in upper case, padded with a zero
  to two digits, separated by single spaces.
\<close>

theorem hex_codec_inverse:
  "leHexToUint32 (encodeLEUint32Hex v) = Inr v \<and>
   (wellFormedHex4 s \<longrightarrow> (\<exists>w. leHexToUint32 s = Inr w \<and> encodeLEUint32Hex w = normalizeHex s))"
  using decode_encode encode_decode by blast

text \<open>
  Claim C4, amended. \<open>leHexToUint32\<close> fails exactly when the white-space split of the input
  does not have four tokens or some token is not a byte token: a non-empty string of
  hexadecimal digits, of any length, whose value is at most 255. When it succeeds, token 0
  is the least significant byte of the result and token 3 the most significant.
\<close>

theorem leHexToUint32_result:
  "((\<exists>e. leHexToUint32 s = Inl e) \<longleftrightarrow>
      length (Fields s) \<noteq> 4 \<or> \<not> list_all hexByteToken (Fields s)) \<and>
   (leHexToUint32 s = Inr v \<longrightarrow>
      unat v = hexValue (Fields s ! 0) + 256 * hexValue (Fields s ! 1)
             + 65536 * hexValue (Fields s ! 2) + 16777216 * hexValue (Fields s ! 3))"
proof -
  have 1: "(\<exists>e. leHexToUint32 s = Inl e) \<longleftrightarrow> \<not> (\<exists>v. leHexToUint32 s = Inr v)"
    by (cases "leHexToUint32 s") auto
  have 2: "(\<exists>v. leHexToUint32 s = Inr v) \<longleftrightarrow> length (Fields s) = 4 \<and> list_all hexByteToken (Fields s)"
    unfolding leHexToUint32_ok by blast
  have 3: "unat v = hexValue (Fields s ! 0) + 256 * hexValue (Fields s ! 1)
             + 65536 * hexValue (Fields s ! 2) + 16777216 * hexValue (Fields s ! 3)"
    if "leHexToUint32 s = Inr v"
  proof -
    from that have l: "length (Fields s) = 4" and a: "list_all hexByteToken (Fields s)"
      and v: "v = word_of_nat (hexValue (Fields s ! 0)) OR push_bit 8 (word_of_nat (hexValue (Fields s ! 1)))
         OR push_bit 16 (word_of_nat (hexValue (Fields s ! 2)))
         OR push_bit 24 (word_of_nat (hexValue (Fields s ! 3)))"
      unfolding leHexToUint32_ok by simp_all
    have "hexValue (Fields s ! i) \<le> 255" if "i < 4" for i
      using a l that by (simp add: list_all_length hexByteToken_def)
    then show ?thesis unfolding v by (intro bytes_or_add) simp_all
  qed
  show ?thesis using 1 2 3 by blast
qed

lemmas parse_eval = ParseUint_def digitVal_def lower_def less_eq_char_def

lemma Fields_F000: "Fields ''F 0 0 0'' = [''F'', ''0'', ''0'', ''0'']"
  by code_simp

lemma leHexToUint32_F000: "leHexToUint32 ''F 0 0 0'' = Inr 15"
  by (simp add: leHexToUint32_def Fields_F000 leHexLoop_unroll parse_eval)

text \<open>
  The claim C4 as first stated asks for two-digit tokens; the one-digit token \<open>F\<close> is accepted.
\<close>

theorem leHexToUint32_two_digit_counterexample:
  "leHexToUint32 ''F 0 0 0'' = Inr 15 \<and> \<not> list_all twoDigitHexByte (Fields ''F 0 0 0'')"
  by (simp add: leHexToUint32_F000 Fields_F000 twoDigitHexByte_def)

lemma Fields_15: "Fields ''15 00 00 00'' = [''15'', ''00'', ''00'', ''00'']"
  by code_simp

lemma leHexToUint32_15: "leHexToUint32 ''15 00 00 00'' = Inr 21"
  by (simp add: leHexToUint32_def Fields_15 leHexLoop_unroll parse_eval)

theorem leHexToUint32_result_witness:
  "leHexToUint32 ''15 00 00 00'' = Inr 21 \<and>
   length (Fields ''15 00 00 00'') = 4 \<and> list_all hexByteToken (Fields ''15 00 00 00'') \<and>
   unat (21 :: 32 word) = hexValue ''15'' + 256 * hexValue ''00'' + 65536 * hexValue ''00''
      + 16777216 * hexValue ''00''"
  using leHexToUint32_result [of "''15 00 00 00''" 21] leHexToUint32_15
  by (simp add: Fields_15)

lemma wellFormedHex4_ex: "wellFormedHex4 ''1 aB  0f 7''"
  by code_simp

theorem hex_codec_inverse_witness:
  "wellFormedHex4 ''1 aB  0f 7'' \<and>
   leHexToUint32 (encodeLEUint32Hex 0x070FAB01) = Inr 0x070FAB01 \<and>
   (\<exists>w. leHexToUint32 ''1 aB  0f 7'' = Inr w \<and> encodeLEUint32Hex w = normalizeHex ''1 aB  0f 7'')"
  using hex_codec_inverse [of "0x070FAB01" "''1 aB  0f 7''"] wellFormedHex4_ex by simp

section \<open>The parser: names, header capture, errors\<close>

lemma setField_keeps:
  "setField pf st n key val = Inr st' \<Longrightarrow> lib st' = lib st \<and> signals st' = signals st"
  by (auto simp: setField_def split: if_splits sum.splits)

lemma TrimSpace_hash: "TrimSpace ''#'' = ''#''"
  by code_simp

lemma handleLine_hash:
  "handleLine pf st n ''#'' =
     Inr (if Name (curr st) \<noteq> [] then st\<lparr>signals := signals st @ [curr st], curr := emptySignal\<rparr> else st)"
  by (simp add: handleLine_def TrimSpace_hash HasPrefix_def)

lemma handleLine_signals:
  assumes "handleLine pf st n raw = Inr st'"
  shows "signals st' = signals st \<or> (Name (curr st) \<noteq> [] \<and> signals st' = signals st @ [curr st])"
  using assms
  by (auto simp: handleLine_def Let_def split: if_splits list.splits dest: setField_keeps)

lemma unmarshalLoop_names:
  "unmarshalLoop pf st n ls = Inr st' \<Longrightarrow> list_all (\<lambda>sig. Name sig \<noteq> []) (signals st) \<Longrightarrow>
   list_all (\<lambda>sig. Name sig \<noteq> []) (signals st')"
proof (induction ls arbitrary: st n)
  case Nil then show ?case by simp
next
  case (Cons l ls)
  from Cons.prems(1) obtain st1 where 1: "handleLine pf st n l = Inr st1"
    and 2: "unmarshalLoop pf st1 (n + 1) ls = Inr st'"
    by (auto split: sum.splits)
  from handleLine_signals [OF 1] Cons.prems(2) have "list_all (\<lambda>sig. Name sig \<noteq> []) (signals st1)"
    by auto
  with Cons.IH [OF 2] show ?case .
qed

lemma Unmarshal_names:
  assumes "Unmarshal pf s = Inr l"
  shows "list_all (\<lambda>sig. Name sig \<noteq> []) (Signals l)"
proof -
  from assms obtain st where 1: "unmarshalLoop pf initParser 0 (SplitNewline s) = Inr st"
    and l: "l = finish st"
    by (auto simp: Unmarshal_def split: sum.splits)
  have "list_all (\<lambda>sig. Name sig \<noteq> []) (signals st)"
    using unmarshalLoop_names [OF 1] by (simp add: initParser_def)
  then show ?thesis by (simp add: l finish_def)
qed

text \<open>
  Claim C8. Every signal of a library that \<open>Unmarshal\<close> returns has a non-empty name. A
  \<open>#\<close> line read while the record in progress has no name leaves the parser as it is, so a
  second \<open>#\<close> right after a first one adds no signal; the record in progress at the end of
  the input is appended only when it has a name (\<open>finish\<close>).
\<close>

theorem Unmarshal_no_empty_name:
  "(Unmarshal pf s = Inr l \<longrightarrow> list_all (\<lambda>sig. Name sig \<noteq> []) (Signals l)) \<and>
   (Name (curr st) = [] \<longrightarrow> handleLine pf st n ''#'' = Inr st) \<and>
   (handleLine pf st n ''#'' = Inr st' \<longrightarrow> handleLine pf st' m ''#'' = Inr st')"
proof (intro conjI impI)
  assume "Unmarshal pf s = Inr l"
  then show "list_all (\<lambda>sig. Name sig \<noteq> []) (Signals l)" by (rule Unmarshal_names)
next
  assume "Name (curr st) = []"
  then show "handleLine pf st n ''#'' = Inr st" by (simp add: handleLine_hash)
next
  assume "handleLine pf st n ''#'' = Inr st'"
  then have "Name (curr st') = []"
    by (auto simp: handleLine_hash emptySignal_def split: if_splits)
  then show "handleLine pf st' m ''#'' = Inr st'" by (simp add: handleLine_hash)
qed

lemma HasPrefix_Nil: "\<not> HasPrefix [] (c # p)"
  by (simp add: HasPrefix_def)

lemma handleLine_Filetype:
  assumes "handleLine pf st n raw = Inr st'"
  shows "Filetype (lib st') =
     (if Filetype (lib st) = [] \<and> HasPrefix (TrimSpace raw) ''Filetype:''
      then TrimSpace (TrimPrefix (TrimSpace raw) ''Filetype:'') else Filetype (lib st))"
  using assms
  by (auto simp: handleLine_def Let_def HasPrefix_Nil split: if_splits list.splits dest: setField_keeps)

lemma unmarshalLoop_Filetype:
  "unmarshalLoop pf st n ls = Inr st' \<Longrightarrow>
   Filetype (lib st') = (if Filetype (lib st) \<noteq> [] then Filetype (lib st) else firstFiletype ls)"
proof (induction ls arbitrary: st n)
  case Nil then show ?case by simp
next
  case (Cons l ls)
  from Cons.prems obtain st1 where 1: "handleLine pf st n l = Inr st1"
    and 2: "unmarshalLoop pf st1 (n + 1) ls = Inr st'"
    by (auto split: sum.splits)
  show ?case
    unfolding Cons.IH [OF 2] handleLine_Filetype [OF 1] by (simp add: Let_def)
qed

lemma SplitColon2_prefix:
  "CHR '':'' \<notin> set key \<Longrightarrow> HasPrefix line (key @ '':'') \<Longrightarrow>
   SplitColon2 line = [key, drop (Suc (length key)) line]"
  by (auto simp: HasPrefix_def prefix_def SplitColon2_key)

lemma TrimSpace_Filetype: "TrimSpace ''Filetype'' = ''Filetype''"
  by code_simp

lemma TrimSpace_Version: "TrimSpace ''Version'' = ''Version''"
  by code_simp

lemma setField_unknown:
  "key \<notin> {''name'', ''type'', ''protocol'', ''address'', ''command'', ''frequency'', ''duty_cycle'',
      ''data''} \<Longrightarrow> setField pf st n key val = Inr st"
  by (simp add: setField_def)

lemma handleLine_later_Filetype:
  assumes "Filetype (lib st) \<noteq> []" "HasPrefix (TrimSpace raw) ''Filetype:''"
  shows "handleLine pf st n raw = setField pf st n ''Filetype'' (TrimSpace (drop 9 (TrimSpace raw)))"
    and "setField pf st n ''Filetype'' val = Inr st"
proof -
  have p: "HasPrefix (TrimSpace raw) (''Filetype'' @ '':'')" using assms(2) by simp
  have s: "SplitColon2 (TrimSpace raw) = [''Filetype'', drop 9 (TrimSpace raw)]"
    using SplitColon2_prefix [OF _ p] by (simp add: eval_nat_numeral)
  have n: "TrimSpace raw \<noteq> []" "\<not> HasPrefix (TrimSpace raw) ''Version:''" "TrimSpace raw \<noteq> ''#''"
    using assms(2) by (auto simp: HasPrefix_def prefix_def)
  show "handleLine pf st n raw = setField pf st n ''Filetype'' (TrimSpace (drop 9 (TrimSpace raw)))"
    using assms(1) n by (simp add: handleLine_def Let_def s TrimSpace_Filetype)
  show "setField pf st n ''Filetype'' val = Inr st"
    by (rule setField_unknown) simp
qed

text \<open>
  Claim C6, amended. The capture of the \<open>Filetype:\<close> header is guarded by the emptiness of
  the field, not by a flag: the file kind a successful parse returns is the trimmed rest of
  the first \<open>Filetype:\<close> line whose rest is not empty (\<open>firstFiletype\<close>; empty when there is
  none). Once the field is non-empty, a line starting with \<open>Filetype:\<close> falls through to the
  key switch with the key \<open>Filetype\<close>, which no case matches, and leaves the whole parser
  state unchanged.
\<close>

theorem Filetype_capture:
  "(Unmarshal pf s = Inr l \<longrightarrow> Filetype l = firstFiletype (SplitNewline s)) \<and>
   (Filetype (lib st) \<noteq> [] \<and> HasPrefix (TrimSpace raw) ''Filetype:'' \<longrightarrow>
      handleLine pf st n raw = setField pf st n ''Filetype'' (TrimSpace (drop 9 (TrimSpace raw))) \<and>
      handleLine pf st n raw = Inr st)"
proof (intro conjI impI)
  assume "Unmarshal pf s = Inr l"
  then obtain st' where 1: "unmarshalLoop pf initParser 0 (SplitNewline s) = Inr st'"
    and l: "l = finish st'"
    by (auto simp: Unmarshal_def split: sum.splits)
  show "Filetype l = firstFiletype (SplitNewline s)"
    using unmarshalLoop_Filetype [OF 1] by (simp add: l finish_def initParser_def)
next
  assume a: "Filetype (lib st) \<noteq> [] \<and> HasPrefix (TrimSpace raw) ''Filetype:''"
  then show "handleLine pf st n raw = setField pf st n ''Filetype'' (TrimSpace (drop 9 (TrimSpace raw)))"
    by (simp add: handleLine_later_Filetype(1))
  then show "handleLine pf st n raw = Inr st"
    by (simp add: setField_unknown)
qed

lemma atoiAll_fails: "isl (atoiAll ts) \<longleftrightarrow> list_ex (\<lambda>tok. isl (Atoi tok)) ts"
  by (induction ts) (auto split: sum.splits)

lemma setField_fails:
  "isl (setField pf st n key val) \<longleftrightarrow>
     (key = ''address'' \<and> isl (leHexToUint32 val)) \<or>
     (key = ''command'' \<and> isl (leHexToUint32 val)) \<or>
     (key = ''frequency'' \<and> isl (Atoi val)) \<or>
     (key = ''duty_cycle'' \<and> isl (pf val)) \<or>
     (key = ''data'' \<and> list_ex (\<lambda>tok. isl (Atoi tok)) (Fields val))"
  by (simp add: setField_def atoiAll_fails [symmetric] split: sum.splits)

lemma malformedField_split:
  "SplitColon2 (TrimSpace raw) = [p0, p1] \<Longrightarrow>
   malformedField pf raw = isl (setField pf st n (TrimSpace p0) (TrimSpace p1))"
  by (simp add: malformedField_def setField_fails Let_def)

lemma SplitColon2_cases:
  obtains "SplitColon2 line = [line]" "CHR '':'' \<notin> set line"
  | p0 p1 where "SplitColon2 line = [p0, p1]"
  by (cases "CHR '':'' \<in> set line") (simp_all add: SplitColon2_def)

lemma handleLine_fails: "isl (handleLine pf st n raw) \<longleftrightarrow> malformedField pf raw"
proof -
  let ?line = "TrimSpace raw"
  consider (blank) "?line = []" | (hash) "?line = ''#''"
    | (ft) "HasPrefix ?line ''Filetype:''" | (ver) "HasPrefix ?line ''Version:''"
    | (other) "?line \<noteq> []" "?line \<noteq> ''#''" "\<not> HasPrefix ?line ''Filetype:''"
        "\<not> HasPrefix ?line ''Version:''"
    by blast
  then show ?thesis
  proof cases
    case blank
    then show ?thesis by (simp add: handleLine_def malformedField_def SplitColon2_def)
  next
    case hash
    then show ?thesis by (simp add: handleLine_def malformedField_def SplitColon2_def HasPrefix_def)
  next
    case ft
    then have p: "HasPrefix ?line (''Filetype'' @ '':'')" by simp
    have s: "SplitColon2 ?line = [''Filetype'', drop 9 ?line]"
      using SplitColon2_prefix [OF _ p] by (simp add: eval_nat_numeral)
    have n: "?line \<noteq> []" "\<not> HasPrefix ?line ''Version:''" "?line \<noteq> ''#''"
      using ft by (auto simp: HasPrefix_def prefix_def)
    have "\<not> malformedField pf raw"
      by (simp add: malformedField_def s TrimSpace_Filetype)
    moreover have "\<not> isl (handleLine pf st n raw)"
      using n by (simp add: handleLine_def Let_def s TrimSpace_Filetype setField_unknown)
    ultimately show ?thesis by simp
  next
    case ver
    then have p: "HasPrefix ?line (''Version'' @ '':'')" by simp
    have s: "SplitColon2 ?line = [''Version'', drop 8 ?line]"
      using SplitColon2_prefix [OF _ p] by (simp add: eval_nat_numeral)
    have n: "?line \<noteq> []" "\<not> HasPrefix ?line ''Filetype:''" "?line \<noteq> ''#''"
      using ver by (auto simp: HasPrefix_def prefix_def)
    have "\<not> malformedField pf raw"
      by (simp add: malformedField_def s TrimSpace_Version)
    moreover have "\<not> isl (handleLine pf st n raw)"
      using n by (simp add: handleLine_def Let_def s TrimSpace_Version setField_unknown)
    ultimately show ?thesis by simp
  next
    case other
    show ?thesis
    proof (cases ?line rule: SplitColon2_cases)
      case 1
      then show ?thesis using other by (simp add: handleLine_def malformedField_def Let_def)
    next
      case (2 p0 p1)
      then show ?thesis
        using other malformedField_split [OF 2, of pf st n] by (simp add: handleLine_def Let_def)
    qed
  qed
qed

lemma unmarshalLoop_fails:
  "isl (unmarshalLoop pf st n ls) \<longleftrightarrow> list_ex (malformedField pf) ls"
proof (induction ls arbitrary: st n)
  case Nil show ?case by simp
next
  case (Cons l ls)
  show ?case
  proof (cases "handleLine pf st n l")
    case (Inl e)
    then have "malformedField pf l" using handleLine_fails [of pf st n l] by simp
    with Inl show ?thesis by simp
  next
    case (Inr st1)
    then have "\<not> malformedField pf l" using handleLine_fails [of pf st n l] by simp
    with Inr Cons.IH [of st1 "n + 1"] show ?thesis by simp
  qed
qed

lemma set_trimLeft: "set (trimLeft s) \<subseteq> set s"
proof (induction s rule: trimLeft.induct)
  case (1 s)
  show ?case
  proof (cases "leadSpace s = 0 \<or> s = []")
    case True then show ?thesis by (simp add: trimLeft.simps)
  next
    case False
    with 1 have "set (trimLeft (drop (leadSpace s) s)) \<subseteq> set (drop (leadSpace s) s)" by simp
    also have "\<dots> \<subseteq> set s" by (rule set_drop_subset)
    finally show ?thesis using False by (subst trimLeft.simps) simp
  qed
qed

lemma set_trimRight: "set (trimRight s) \<subseteq> set s"
proof (induction s rule: trimRight.induct)
  case (1 s)
  show ?case
  proof (cases "trailSpace s = 0 \<or> s = []")
    case True then show ?thesis by (simp add: trimRight.simps)
  next
    case False
    with 1 have "set (trimRight (take (length s - trailSpace s) s)) \<subseteq> set (take (length s - trailSpace s) s)" by simp
    also have "\<dots> \<subseteq> set s" by (rule set_take_subset)
    finally show ?thesis using False by (subst trimRight.simps) simp
  qed
qed

lemma set_TrimSpace: "set (TrimSpace s) \<subseteq> set s"
  unfolding TrimSpace_def using set_trimRight [of "trimLeft s"] set_trimLeft [of s] by blast

lemma colon_free_not_malformed: "CHR '':'' \<notin> set raw \<Longrightarrow> \<not> malformedField pf raw"
  using set_TrimSpace [of raw] by (auto simp: malformedField_def SplitColon2_def)

text \<open>
  Claim C7. \<open>Unmarshal\<close> returns an error exactly when some line of the input is a
  malformed numeric field: a line whose trimmed key is \<open>address\<close>, \<open>command\<close>, \<open>frequency\<close>,
  \<open>duty_cycle\<close> or \<open>data\<close> and whose value (a token of it, for \<open>data\<close>) the conversion
  rejects. Any other key, an unrecognised \<open>type\<close> value among them, and a line without a
  colon never cause an error. The result is either the error or the library, never both.
\<close>

theorem Unmarshal_fails_iff:
  "(isl (Unmarshal pf s) \<longleftrightarrow> list_ex (malformedField pf) (SplitNewline s)) \<and>
   (key \<notin> {''address'', ''command'', ''frequency'', ''duty_cycle'', ''data''} \<longrightarrow>
      \<not> isl (setField pf st n key val)) \<and>
   (CHR '':'' \<notin> set raw \<longrightarrow> \<not> isl (handleLine pf st n raw))"
proof (intro conjI impI)
  show "isl (Unmarshal pf s) \<longleftrightarrow> list_ex (malformedField pf) (SplitNewline s)"
    using unmarshalLoop_fails [of pf initParser 0 "SplitNewline s"]
    by (cases "unmarshalLoop pf initParser 0 (SplitNewline s)") (simp_all add: Unmarshal_def)
next
  assume "key \<notin> {''address'', ''command'', ''frequency'', ''duty_cycle'', ''data''}"
  then show "\<not> isl (setField pf st n key val)" by (simp add: setField_fails)
next
  assume "CHR '':'' \<notin> set raw"
  then show "\<not> isl (handleLine pf st n raw)"
    by (simp add: handleLine_fails colon_free_not_malformed)
qed

section \<open>Decimal integers\<close>

lemma decDigit_props:
  assumes "d < 10"
  shows "CHR ''0'' \<le> decDigit d" "decDigit d \<le> CHR ''9''" "of_char (decDigit d) - 48 = d"
    "digitVal (decDigit d) = Some d" "isDecDigit (decDigit d)"
proof -
  from assms have "d = 0 \<or> d = 1 \<or> d = 2 \<or> d = 3 \<or> d = 4 \<or> d = 5 \<or> d = 6
    \<or> d = 7 \<or> d = 8 \<or> d = 9"
    by arith
  then consider "d = 0" | "d = 1" | "d = 2" | "d = 3" | "d = 4" | "d = 5" | "d = 6"
    | "d = 7" | "d = 8" | "d = 9"
    by blast
  then have "isDecDigit (decDigit d) \<and> of_char (decDigit d) - 48 = d \<and> digitVal (decDigit d) = Some d"
    by cases (simp_all add: decDigit_def isDecDigit_def digitVal_def less_eq_char_def)
  then show "CHR ''0'' \<le> decDigit d" "decDigit d \<le> CHR ''9''" "of_char (decDigit d) - 48 = d"
    "digitVal (decDigit d) = Some d" "isDecDigit (decDigit d)"
    by (simp_all add: isDecDigit_def)
qed

lemma dec_plain_all:
  "list_all (\<lambda>c. isDecDigit c \<or> c = CHR ''-'' \<longrightarrow> \<not> spaceLead c \<and> \<not> spaceLast c) Enum.enum"
  by code_simp

lemma dec_plain: "isDecDigit c \<or> c = CHR ''-'' \<Longrightarrow> \<not> spaceLead c \<and> \<not> spaceLast c"
  using all_chars [OF dec_plain_all, of c] by simp

lemma decDigits_Nil: "decDigits n \<noteq> []"
  by (subst decDigits.simps) simp

lemma decDigits_chars: "c \<in> set (decDigits n) \<Longrightarrow> isDecDigit c"
proof (induction n rule: decDigits.induct)
  case (1 n)
  show ?case
  proof (cases "n < 10")
    case True
    with 1(2) show ?thesis by (subst (asm) decDigits.simps) (simp add: decDigit_props)
  next
    case False
    with 1(2) have "c \<in> set (decDigits (n div 10)) \<or> c = decDigit (n mod 10)"
      by (subst (asm) decDigits.simps) auto
    with 1(1) False show ?thesis by (auto simp: decDigit_props)
  qed
qed

lemma atoiDigits_decDigits:
  "atoiDigits 0 (decDigits n @ rest) = atoiDigits n rest"
proof (induction n arbitrary: rest rule: decDigits.induct)
  case (1 n)
  show ?case
  proof (cases "n < 10")
    case True
    then show ?thesis by (subst decDigits.simps) (simp add: decDigit_props)
  next
    case False
    have m: "n mod 10 < 10" by simp
    have "atoiDigits 0 (decDigits n @ rest) = atoiDigits 0 (decDigits (n div 10) @ decDigit (n mod 10) # rest)"
      using False by (subst decDigits.simps) simp
    also have "\<dots> = atoiDigits (n div 10) (decDigit (n mod 10) # rest)"
      using False by (rule 1)
    also have "\<dots> = atoiDigits n rest"
      by (simp add: decDigit_props [OF m])
    finally show ?thesis .
  qed
qed

lemma parseUintLoop_decDigits:
  assumes "n div 10 < cutoff" "0 < cutoff" "n < 18446744073709551616" "n \<le> maxVal"
  shows "parseUintLoop 10 cutoff maxVal 0 (decDigits n @ rest) = parseUintLoop 10 cutoff maxVal n rest"
  using assms
proof (induction n arbitrary: rest rule: decDigits.induct)
  case (1 n)
  show ?case
  proof (cases "n < 10")
    case True
    then show ?thesis using 1(3-) by (subst decDigits.simps) (simp add: decDigit_props)
  next
    case False
    have m: "n mod 10 < 10" by simp
    have e: "n div 10 * 10 + n mod 10 = n" by simp
    have "parseUintLoop 10 cutoff maxVal 0 (decDigits n @ rest)
        = parseUintLoop 10 cutoff maxVal 0 (decDigits (n div 10) @ decDigit (n mod 10) # rest)"
      using False by (subst decDigits.simps) simp
    also have "\<dots> = parseUintLoop 10 cutoff maxVal (n div 10) (decDigit (n mod 10) # rest)"
      using False 1(2-) by (intro 1(1)) auto
    also have "\<dots> = parseUintLoop 10 cutoff maxVal n rest"
      using 1(2-) m by (simp add: decDigit_props [OF m] e not_le [symmetric] del: mod_less_divisor)
    finally show ?thesis .
  qed
qed

lemma ParseUint_decDigits:
  assumes "n < 18446744073709551616"
  shows "ParseUint (decDigits n) 10 64 = Inr n"
proof -
  have "parseUintLoop 10 (18446744073709551615 div 10 + 1) (2 ^ 64 - 1) 0 (decDigits n @ [])
      = parseUintLoop 10 (18446744073709551615 div 10 + 1) (2 ^ 64 - 1) n []"
    using assms by (intro parseUintLoop_decDigits) simp_all
  then show ?thesis by (simp add: ParseUint_def decDigits_Nil)
qed

lemma hd_decDigits: "isDecDigit (hd (decDigits n))"
  using decDigits_chars [of "hd (decDigits n)" n] decDigits_Nil [of n] by simp

lemma not_sign_digit: "isDecDigit c \<Longrightarrow> c \<noteq> CHR ''-'' \<and> c \<noteq> CHR ''+''"
  by (auto simp: isDecDigit_def less_eq_char_def)

lemma top_bit: "sint (v :: 64 word) < 0 \<longleftrightarrow> 9223372036854775808 \<le> unat v"
proof -
  have "sint v < 0 \<longleftrightarrow> bit (unat v) 63"
    using bit_last_iff [of v] by (simp add: bit_unsigned_iff)
  also have "\<dots> \<longleftrightarrow> odd (unat v div 2 ^ 63)" by (simp add: bit_iff_odd)
  also have "\<dots> \<longleftrightarrow> 9223372036854775808 \<le> unat v"
  proof -
    have "unat v < 2 * 9223372036854775808" using unsigned_less [of v, where 'a = nat] by simp
    then have "unat v div 9223372036854775808 < 2" by (simp add: less_mult_imp_div_less)
    then have "unat v div 9223372036854775808 = 0 \<or> unat v div 9223372036854775808 = 1" by linarith
    then show ?thesis by (auto simp: div_eq_0_iff dest: leD)
  qed
  finally show ?thesis .
qed

lemma unat_neg_le:
  assumes "sint (v :: 64 word) < 0"
  shows "unat (- v) \<le> 9223372036854775808"
proof -
  have big: "9223372036854775808 \<le> unat v" using assms by (simp add: top_bit)
  have a: "unat v < 18446744073709551616" and b: "unat (- v) < 18446744073709551616"
    using unsigned_less [of v, where 'a = nat] unsigned_less [of "- v", where 'a = nat] by simp_all
  have "unat (v + (- v)) = (unat v + unat (- v)) mod 2 ^ LENGTH(64)"
    by (rule unat_word_ariths)
  moreover have "unat (v + (- v)) = 0" by simp
  ultimately have "(unat v + unat (- v)) mod 18446744073709551616 = 0" by simp
  then obtain k where k: "unat v + unat (- v) = 18446744073709551616 * k"
    by (auto simp: mod_eq_0_iff_dvd)
  with a b have "k < 2" by simp
  moreover from k big have "k \<noteq> 0" by auto
  ultimately have "k = 1" by simp
  with k big show ?thesis by simp
qed

lemma Atoi_fmtD: "Atoi (fmtD v) = Inr v"
proof (cases "sint v < 0")
  case neg: True
  let ?n = "unat (- v)"
  have s: "fmtD v = CHR ''-'' # decDigits ?n" using neg by (simp add: fmtD_def)
  have le: "?n \<le> 9223372036854775808"
    using neg by (rule unat_neg_le)
  show ?thesis
  proof (cases "length (fmtD v) < 19")
    case True
    then show ?thesis
      using atoiDigits_decDigits [of ?n "[]"] by (simp add: Atoi_def s decDigits_Nil)
  next
    case False
    have "ParseInt (fmtD v) 10 0 = Inr v"
      using le ParseUint_decDigits [of ?n] by (simp add: ParseInt_def s)
    with False show ?thesis by (simp add: Atoi_def)
  qed
next
  case pos: False
  let ?n = "unat v"
  have s: "fmtD v = decDigits ?n" using pos by (simp add: fmtD_def)
  have h: "hd (decDigits ?n) \<noteq> CHR ''-''" "hd (decDigits ?n) \<noteq> CHR ''+''"
    using not_sign_digit [OF hd_decDigits [of ?n]] by simp_all
  have lt: "?n < 9223372036854775808"
    using pos by (simp add: top_bit)
  show ?thesis
  proof (cases "length (fmtD v) < 19")
    case True
    then show ?thesis
      using atoiDigits_decDigits [of ?n "[]"] h by (simp add: Atoi_def s decDigits_Nil)
  next
    case False
    have "ParseInt (fmtD v) 10 0 = Inr v"
      using lt h ParseUint_decDigits [of ?n] by (simp add: ParseInt_def s decDigits_Nil)
    with False show ?thesis by (simp add: Atoi_def)
  qed
qed

section \<open>Lines as Marshal writes them, and the examples\<close>

lemma handleLine_blank: "handleLine pf st n [] = Inr st"
  by (simp add: handleLine_def TrimSpace_Nil)

lemma handleLine_header_Filetype:
  assumes "Filetype (lib st) = []" "TrimSpace v = v"
  shows "handleLine pf st n (''Filetype: '' @ v) = Inr (st\<lparr>lib := (lib st)\<lparr>Filetype := v\<rparr>\<rparr>)"
proof -
  define rest where "rest = (if v = [] then [] else CHR 0x20 # v)"
  have line: "TrimSpace (''Filetype: '' @ v) = ''Filetype:'' @ rest"
    using TrimSpace_key_line [of "''Filetype''" v] assms(2)
    by (simp add: rest_def spaceLead_def spaceRunes_def)
  have r: "TrimSpace rest = v"
    using assms(2) by (simp add: rest_def TrimSpace_space_trimmed TrimSpace_Nil)
  show ?thesis
    unfolding handleLine_def line Let_def using assms(1) r
    by (simp add: HasPrefix_def TrimPrefix_def)
qed

lemma handleLine_header_Version:
  assumes "Version (lib st) = []" "TrimSpace v = v"
  shows "handleLine pf st n (''Version: '' @ v) = Inr (st\<lparr>lib := (lib st)\<lparr>Version := v\<rparr>\<rparr>)"
proof -
  define rest where "rest = (if v = [] then [] else CHR 0x20 # v)"
  have line: "TrimSpace (''Version: '' @ v) = ''Version:'' @ rest"
    using TrimSpace_key_line [of "''Version''" v] assms(2)
    by (simp add: rest_def spaceLead_def spaceRunes_def)
  have r: "TrimSpace rest = v"
    using assms(2) by (simp add: rest_def TrimSpace_space_trimmed TrimSpace_Nil)
  show ?thesis
    unfolding handleLine_def line Let_def using assms(1) r
    by (simp add: HasPrefix_def TrimPrefix_def)
qed

lemmas plain_eval = TrimSpace_plain_ends spaceLead_def spaceLast_def spaceRunes_def

lemma handleLine_key:
  assumes "TrimSpace v = v"
  shows "handleLine pf st n (''name: '' @ v) = setField pf st n ''name'' v"
    and "handleLine pf st n (''type: '' @ v) = setField pf st n ''type'' v"
    and "handleLine pf st n (''protocol: '' @ v) = setField pf st n ''protocol'' v"
    and "handleLine pf st n (''address: '' @ v) = setField pf st n ''address'' v"
    and "handleLine pf st n (''command: '' @ v) = setField pf st n ''command'' v"
    and "handleLine pf st n (''frequency: '' @ v) = setField pf st n ''frequency'' v"
    and "handleLine pf st n (''duty_cycle: '' @ v) = setField pf st n ''duty_cycle'' v"
    and "handleLine pf st n (''data: '' @ v) = setField pf st n ''data'' v"
  using handleLine_field [of "''name''" v pf st n] handleLine_field [of "''type''" v pf st n]
    handleLine_field [of "''protocol''" v pf st n] handleLine_field [of "''address''" v pf st n]
    handleLine_field [of "''command''" v pf st n] handleLine_field [of "''frequency''" v pf st n]
    handleLine_field [of "''duty_cycle''" v pf st n] handleLine_field [of "''data''" v pf st n]
    assms
  by (simp_all add: plain_eval)

lemma SplitNewline_example:
  "SplitNewline exampleText =
     [''Filetype: IR signals file'', ''Version: 1'', ''#'', ''name: Power'', ''type: parsed'',
      ''protocol: NEC'', ''address: 00 00 00 00'', ''command: 15 00 00 00'', []]"
  by (simp add: exampleText_def)

lemma Fields_zero: "Fields ''00 00 00 00'' = [''00'', ''00'', ''00'', ''00'']"
  by code_simp

lemma leHexToUint32_zero: "leHexToUint32 ''00 00 00 00'' = Inr 0"
  by (simp add: leHexToUint32_def Fields_zero leHexLoop_unroll parse_eval)

lemma Fields_ZZ: "Fields ''ZZ 00 00 00'' = [''ZZ'', ''00'', ''00'', ''00'']"
  by code_simp

lemma leHexToUint32_ZZ:
  "leHexToUint32 ''ZZ 00 00 00'' = Inl (NumError ''ParseUint'' ''ZZ'' ErrSyntax)"
  by (simp add: leHexToUint32_def Fields_ZZ leHexLoop_unroll parse_eval)

lemma example_lines:
  fixes st :: "('f::zero) parser"
  shows "Filetype (lib st) = [] \<Longrightarrow> handleLine pf st n ''Filetype: IR signals file''
           = Inr (st\<lparr>lib := (lib st)\<lparr>Filetype := ''IR signals file''\<rparr>\<rparr>)"
    and "Version (lib st) = [] \<Longrightarrow> handleLine pf st n ''Version: 1''
           = Inr (st\<lparr>lib := (lib st)\<lparr>Version := ''1''\<rparr>\<rparr>)"
    and "handleLine pf st n ''name: Power'' = setField pf st n ''name'' ''Power''"
    and "handleLine pf st n ''type: parsed'' = setField pf st n ''type'' ''parsed''"
    and "handleLine pf st n ''protocol: NEC'' = setField pf st n ''protocol'' ''NEC''"
    and "handleLine pf st n ''address: 00 00 00 00'' = setField pf st n ''address'' ''00 00 00 00''"
    and "handleLine pf st n ''command: 15 00 00 00'' = setField pf st n ''command'' ''15 00 00 00''"
    and "handleLine pf st n ''address: ZZ 00 00 00'' = setField pf st n ''address'' ''ZZ 00 00 00''"
  using handleLine_header_Filetype [of st "''IR signals file''" pf n]
    handleLine_header_Version [of st "''1''" pf n]
    handleLine_key(1) [of "''Power''" pf st n] handleLine_key(2) [of "''parsed''" pf st n]
    handleLine_key(3) [of "''NEC''" pf st n] handleLine_key(4) [of "''00 00 00 00''" pf st n]
    handleLine_key(5) [of "''15 00 00 00''" pf st n] handleLine_key(4) [of "''ZZ 00 00 00''" pf st n]
  by (simp_all add: plain_eval)

lemma Unmarshal_example: "Unmarshal pf exampleText = Inr exampleLib"
  by (simp add: Unmarshal_def SplitNewline_example example_lines handleLine_hash handleLine_blank
      setField_def leHexToUint32_zero leHexToUint32_15 initParser_def emptySignal_def finish_def
      exampleLib_def)

lemma Marshal_example: "Marshal fmtF6 exampleLib = Inr exampleText"
  by (simp add: Marshal_def writeSignal_def exampleLib_def exampleText_def SignalTypeParsed_def
      encodeLEUint32Hex_def fmt02X_def upperHexDigit_def)

text \<open>
  Claim C5. The example text parses to the library with file kind \<open>IR signals file\<close>, version
  \<open>1\<close> and the one signal \<open>Power\<close> of type \<open>parsed\<close> with protocol \<open>NEC\<close>, address 0 and
  command 21; serialising that library gives the example text back, byte for byte.
\<close>

theorem example_scenario:
  "Unmarshal parseFloat exampleText = Inr exampleLib \<and> Marshal fmtF6 exampleLib = Inr exampleText"
  using Unmarshal_example Marshal_example by blast

lemma Unmarshal_badAddress:
  "Unmarshal pf badAddressText
     = Inl (ParseError ''address'' 4 (NumError ''ParseUint'' ''ZZ'' ErrSyntax))"
  by (simp add: Unmarshal_def badAddressText_def example_lines handleLine_hash handleLine_blank
      setField_def leHexToUint32_ZZ initParser_def emptySignal_def)

text \<open>
  Claim C3 fails on the code: the number in the error is the index of the line in the
  split input, counted from 0. For the input whose fifth line is \<open>address: ZZ 00 00 00\<close> the
  error names line 4.
\<close>

theorem bad_address_line_number:
  "Unmarshal parseFloat badAddressText
     = Inl (ParseError ''address'' 4 (NumError ''ParseUint'' ''ZZ'' ErrSyntax)) \<and>
   errorLine (ParseError ''address'' 4 (NumError ''ParseUint'' ''ZZ'' ErrSyntax)) = 4 \<and>
   SplitNewline badAddressText ! 4 = ''address: ZZ 00 00 00''"
  by (simp add: Unmarshal_badAddress) (simp add: badAddressText_def)

lemma Unmarshal_example_no_final_newline: "Unmarshal pf (butlast exampleText) = Inr exampleLib"
  by (simp add: Unmarshal_def exampleText_def example_lines handleLine_hash handleLine_blank
      setField_def leHexToUint32_zero leHexToUint32_15 initParser_def emptySignal_def finish_def
      exampleLib_def)

lemma twoFiletype_steps:
  "handleLine parseFloatEx initParser 0 ''Filetype:'' = Inr initParser \<and>
   handleLine parseFloatEx initParser 1 ''Filetype: IR library file''
     = Inr (initParser\<lparr>lib := (lib initParser)\<lparr>Filetype := ''IR library file''\<rparr>\<rparr>) \<and>
   Unmarshal parseFloatEx twoFiletypeText
     = Inr \<lparr>Filetype = ''IR library file'', Version = [], Signals = []\<rparr>"
proof -
  have t: "TrimSpace ''Filetype:'' = ''Filetype:''" by (simp add: plain_eval)
  have 1: "handleLine parseFloatEx initParser n ''Filetype:'' = Inr initParser" for n
    by (simp add: handleLine_def t HasPrefix_def TrimPrefix_def TrimSpace_Nil initParser_def)
  have 2: "handleLine parseFloatEx initParser n ''Filetype: IR library file''
     = Inr (initParser\<lparr>lib := (lib initParser)\<lparr>Filetype := ''IR library file''\<rparr>\<rparr>)" for n
    using handleLine_header_Filetype [of initParser "''IR library file''" parseFloatEx n]
    by (simp add: plain_eval) (simp add: initParser_def)
  have 3: "Unmarshal parseFloatEx twoFiletypeText
     = Inr \<lparr>Filetype = ''IR library file'', Version = [], Signals = []\<rparr>"
    by (simp add: Unmarshal_def twoFiletypeText_def 1 2 handleLine_blank)
       (simp add: initParser_def finish_def emptySignal_def)
  from 1 2 3 show ?thesis by blast
qed

text \<open>
  The claim C6 as first stated lets only the first \<open>Filetype:\<close> line set the field. Here the
  first such line has an empty rest and leaves the field empty; the second one sets it.
\<close>

theorem Filetype_fires_twice_counterexample:
  "handleLine parseFloatEx initParser 0 ''Filetype:'' = Inr initParser \<and>
   handleLine parseFloatEx initParser 1 ''Filetype: IR library file''
     = Inr (initParser\<lparr>lib := (lib initParser)\<lparr>Filetype := ''IR library file''\<rparr>\<rparr>) \<and>
   Unmarshal parseFloatEx twoFiletypeText
     = Inr \<lparr>Filetype = ''IR library file'', Version = [], Signals = []\<rparr>"
  by (rule twoFiletype_steps)

theorem Filetype_capture_witness:
  "Unmarshal parseFloatEx twoFiletypeText
     = Inr \<lparr>Filetype = ''IR library file'', Version = [], Signals = []\<rparr> \<and>
   ''IR library file'' = firstFiletype (SplitNewline twoFiletypeText) \<and>
   HasPrefix (TrimSpace ''Filetype: other'') ''Filetype:'' \<and>
   handleLine parseFloatEx (initParser\<lparr>lib := (lib initParser)\<lparr>Filetype := ''IR library file''\<rparr>\<rparr>)
      2 ''Filetype: other''
     = Inr (initParser\<lparr>lib := (lib initParser)\<lparr>Filetype := ''IR library file''\<rparr>\<rparr>)"
proof -
  have u: "Unmarshal parseFloatEx twoFiletypeText
     = Inr \<lparr>Filetype = ''IR library file'', Version = [], Signals = []\<rparr>"
    using twoFiletype_steps by simp
  have t: "TrimSpace ''Filetype: other'' = ''Filetype: other''" by (simp add: plain_eval)
  have p: "HasPrefix (TrimSpace ''Filetype: other'') ''Filetype:''"
    by (simp add: t HasPrefix_def)
  note T = Filetype_capture [of parseFloatEx twoFiletypeText
        "\<lparr>Filetype = ''IR library file'', Version = [], Signals = []\<rparr>"
        "initParser\<lparr>lib := (lib initParser)\<lparr>Filetype := ''IR library file''\<rparr>\<rparr>"
        "''Filetype: other''" 2]
  have a: "''IR library file'' = firstFiletype (SplitNewline twoFiletypeText)"
    using T u by simp
  have b: "handleLine parseFloatEx (initParser\<lparr>lib := (lib initParser)\<lparr>Filetype := ''IR library file''\<rparr>\<rparr>)
      2 ''Filetype: other''
     = Inr (initParser\<lparr>lib := (lib initParser)\<lparr>Filetype := ''IR library file''\<rparr>\<rparr>)"
  proof -
    have "Filetype (lib (initParser\<lparr>lib := (lib initParser)\<lparr>Filetype := ''IR library file''\<rparr>\<rparr>
        :: int parser)) \<noteq> []"
      by simp
    with T p show ?thesis by blast
  qed
  from u a p b show ?thesis by blast
qed

lemma handleLine_foo: "handleLine pf st n ''foo: bar'' = Inr st"
  using handleLine_field [of "''foo''" "''bar''" pf st n]
  by (simp add: plain_eval) (simp add: setField_def)

lemma handleLine_junk: "handleLine pf st n ''junk'' = Inr st"
proof -
  have t: "TrimSpace ''junk'' = ''junk''" by (simp add: plain_eval)
  show ?thesis by (simp add: handleLine_def t HasPrefix_def SplitColon2_def)
qed

lemma Unmarshal_unknownKey:
  "Unmarshal pf unknownKeyText
     = Inr \<lparr>Filetype = [], Version = [], Signals = [emptySignal\<lparr>Name := ''Power''\<rparr>]\<rparr>"
  by (simp add: Unmarshal_def unknownKeyText_def example_lines handleLine_hash handleLine_foo
      handleLine_junk setField_def)
     (simp add: initParser_def finish_def emptySignal_def)

theorem Unmarshal_no_empty_name_witness:
  "Unmarshal parseFloatEx unknownKeyText
     = Inr \<lparr>Filetype = [], Version = [], Signals = [emptySignal\<lparr>Name := ''Power''\<rparr>]\<rparr> \<and>
   list_all (\<lambda>sig. Name sig \<noteq> []) [emptySignal\<lparr>Name := ''Power''\<rparr> :: int Signal] \<and>
   Name (curr (initParser :: int parser)) = [] \<and>
   handleLine parseFloatEx initParser 0 ''#'' = Inr initParser \<and>
   handleLine parseFloatEx initParser 1 ''#'' = Inr initParser"
  using Unmarshal_no_empty_name [of parseFloatEx unknownKeyText
      "\<lparr>Filetype = [], Version = [], Signals = [emptySignal\<lparr>Name := ''Power''\<rparr>]\<rparr>"
      initParser 0 initParser 1]
    Unmarshal_unknownKey [of parseFloatEx]
  by (simp add: initParser_def emptySignal_def)

theorem Unmarshal_fails_iff_witness:
  "list_ex (malformedField parseFloatEx) (SplitNewline badAddressText) \<and>
   isl (Unmarshal parseFloatEx badAddressText) \<and>
   \<not> list_ex (malformedField parseFloatEx) (SplitNewline unknownKeyText) \<and>
   \<not> isl (setField parseFloatEx initParser 3 ''foo'' ''bar'') \<and>
   \<not> isl (handleLine parseFloatEx initParser 3 ''junk'')"
proof -
  have 1: "isl (Unmarshal parseFloatEx badAddressText)"
    by (simp add: Unmarshal_badAddress)
  have 2: "\<not> isl (Unmarshal parseFloatEx unknownKeyText)"
    by (simp add: Unmarshal_unknownKey)
  show ?thesis
    using Unmarshal_fails_iff [of parseFloatEx badAddressText "''foo''" initParser 3 "''bar''" "''junk''"]
      Unmarshal_fails_iff [of parseFloatEx unknownKeyText "''foo''" initParser 3 "''bar''" "''junk''"]
      1 2
    by simp
qed

end
